theory Spec2Isabelle
  imports Main "HOL-Library.Word"
begin

section \<open>Results and the GMP primitives the program calls\<close>

text \<open>
  The program computes on GMP integers (\<open>mpz_t\<close>), modelled by \<open>int\<close>. None of its
  functions returns an error code; the two ways a run can stop without a result are a
  division by zero inside GMP and the write before the start of a buffer in
  \<open>str_to_point\<close>. Both are values of \<open>error\<close>, and a function that can reach one of
  them returns \<open>error + 'a\<close>.
\<close>

datatype error = DivisionByZero | OutOfBounds

fun bind_result :: "error + 'a \<Rightarrow> ('a \<Rightarrow> error + 'b) \<Rightarrow> error + 'b" where
  "bind_result (Inl e) f = Inl e"
| "bind_result (Inr v) f = f v"

text \<open>\<open>mpz_fdiv_qr(q, r, n, d)\<close>: floor division; GMP raises a division by zero for \<open>d = 0\<close>.\<close>

definition mpz_fdiv_qr :: "int \<Rightarrow> int \<Rightarrow> error + (int \<times> int)" where
  "mpz_fdiv_qr n d = (if d = 0 then Inl DivisionByZero else Inr (n div d, n mod d))"

text \<open>
  \<open>mpz_get_str(NULL, base, k)\<close> for the bases 2 and 16 the program uses: the digits of
  \<open>|k|\<close>, most significant first, lower-case letters, \<open>"0"\<close> for zero, and a leading
  minus sign for a negative number.
\<close>

definition digit_char :: "nat \<Rightarrow> char" where
  "digit_char d = ''0123456789abcdef'' ! (d mod 16)"

function mpz_get_str_abs :: "nat \<Rightarrow> int \<Rightarrow> string" where
  "mpz_get_str_abs base n =
     (if base < 2 \<or> n < int base then [digit_char (nat n)]
      else mpz_get_str_abs base (n div int base) @ [digit_char (nat (n mod int base))])"
  by pat_completeness auto
termination
  by (relation "measure (\<lambda>(base, n). nat n)") (auto simp: not_less intro!: int_div_less_self)

declare mpz_get_str_abs.simps [simp del]

definition mpz_get_str :: "nat \<Rightarrow> int \<Rightarrow> string" where
  "mpz_get_str base k =
     (if k < 0 then CHR ''-'' # mpz_get_str_abs base (- k)
      else mpz_get_str_abs base k)"

section \<open>primefield.h\<close>

definition prime_field_add :: "int \<Rightarrow> int \<Rightarrow> int \<Rightarrow> int" where
  "prime_field_add a b p =
     (let tmp = a + b
      in if tmp \<ge> p then tmp - p
         else if tmp < 0 then tmp + p
         else tmp)"

definition prime_field_sub :: "int \<Rightarrow> int \<Rightarrow> int \<Rightarrow> int" where
  "prime_field_sub a b p = (let tmp = - b in prime_field_add a tmp p)"

text \<open>
  \<open>prime_field_mul\<close>: the loop runs \<open>i\<close> from \<open>bitlength - 1\<close> down to \<open>0\<close> over the
  string of bits of \<open>b\<close>, that is over the reversed string; the state is \<open>(res, copy)\<close>.
\<close>

fun mul_loop :: "int \<Rightarrow> string \<Rightarrow> int \<times> int \<Rightarrow> int" where
  "mul_loop p [] (res, copy) = res"
| "mul_loop p (c # cs) (res, copy) =
     mul_loop p cs
       (if c = CHR ''1'' then prime_field_add res copy p else res,
        prime_field_add copy copy p)"

definition prime_field_mul :: "int \<Rightarrow> int \<Rightarrow> int \<Rightarrow> int" where
  "prime_field_mul a b p = mul_loop p (rev (mpz_get_str 2 b)) (0, a)"

text \<open>
  \<open>prime_field_div\<close>: the loop state is \<open>(s, t, u, v, copy_b, copy_p)\<close>; each round
  divides \<open>a\<close> by \<open>copy_p\<close>. The loop ends with \<open>u\<close>, which is multiplied with \<open>a\<close>.
\<close>

function div_loop :: "int \<Rightarrow> int \<Rightarrow> int \<Rightarrow> int \<Rightarrow> int \<Rightarrow> int \<Rightarrow> int \<Rightarrow> error + int" where
  "div_loop a s t u v copy_b copy_p =
     (if copy_p = 0 then Inr u
      else case mpz_fdiv_qr a copy_p of
             Inl e \<Rightarrow> Inl e
           | Inr (q, r) \<Rightarrow> div_loop a (u - q * s) (v - q * t) s t copy_p r)"
  by pat_completeness auto
termination
  by (relation "measure (\<lambda>(a, s, t, u, v, copy_b, copy_p). nat \<bar>copy_p\<bar>)")
     (auto simp: mpz_fdiv_qr_def abs_mod_less)

declare div_loop.simps [simp del]

definition prime_field_div :: "int \<Rightarrow> int \<Rightarrow> int \<Rightarrow> error + int" where
  "prime_field_div a b p =
     bind_result (div_loop a 1 0 0 1 b p) (\<lambda>u. Inr (prime_field_mul a u p))"

text \<open>\<open>prime_field_sq\<close>: the same loop shape over the fixed string \<open>"10"\<close>.\<close>

fun sq_loop :: "int \<Rightarrow> string \<Rightarrow> int \<times> int \<Rightarrow> int" where
  "sq_loop p [] (res, copy) = res"
| "sq_loop p (c # cs) (res, copy) =
     sq_loop p cs
       (if c = CHR ''1'' then prime_field_mul res copy p else res,
        prime_field_mul copy copy p)"

definition prime_field_sq :: "int \<Rightarrow> int \<Rightarrow> int" where
  "prime_field_sq a p = sq_loop p (rev ''10'') (1, a)"

section \<open>ecdh.h: the data\<close>

text \<open>
  The fields \<open>x\<close>, \<open>y\<close> of \<open>struct Point\<close> are \<open>px\<close>, \<open>py\<close> here, and the fields \<open>a\<close>,
  \<open>b\<close> of \<open>struct Curve\<close> are \<open>coef_a\<close>, \<open>coef_b\<close>, so that the one-letter names stay
  free for variables.
\<close>

record Point =
  px :: int
  py :: int

record Curve =
  prime :: int
  coef_a :: int
  coef_b :: int
  G :: Point
  order :: int
  cofactor :: int
  key_size_bits :: nat

datatype Curves = SECP_192_K1 | SECP_192_R1

section \<open>ecdh.c: point arithmetic\<close>

definition create_point :: Point where
  "create_point = \<lparr>px = 0, py = 0\<rparr>"

definition copy_point :: "Point \<Rightarrow> Point" where
  "copy_point point = (create_point\<lparr>px := px point, py := py point\<rparr>)"

definition point_add :: "Point \<Rightarrow> Point \<Rightarrow> Curve \<Rightarrow> error + Point" where
  "point_add p q ec =
     (if px p = 0 \<and> py p = 0 then Inr (copy_point q)
      else if px q = 0 \<and> py q = 0 then Inr (copy_point p)
      else
        let r = create_point in
        if px p = px q then Inr r
        else
          let x_delta = prime_field_sub (px p) (px q) (prime ec);
              y_delta = prime_field_sub (py p) (py q) (prime ec)
          in bind_result (prime_field_div y_delta x_delta (prime ec)) (\<lambda>s.
               let tmp1 = prime_field_sq s (prime ec);
                   tmp2 = prime_field_add (px p) (px q) (prime ec);
                   rx = prime_field_sub tmp1 tmp2 (prime ec);
                   tmp1 = prime_field_sub (px p) rx (prime ec);
                   tmp2 = prime_field_mul s tmp1 (prime ec);
                   ry = prime_field_sub tmp2 (py p) (prime ec)
               in Inr (r\<lparr>px := rx, py := ry\<rparr>)))"

definition point_double :: "Point \<Rightarrow> Curve \<Rightarrow> error + Point" where
  "point_double p ec =
     (let r = create_point;
          px_sq = prime_field_sq (px p) (prime ec);
          tmp1 = prime_field_mul px_sq 3 (prime ec);
          sum = prime_field_add tmp1 (coef_a ec) (prime ec);
          px_2 = prime_field_mul (px p) 2 (prime ec);
          py_2 = prime_field_mul (py p) 2 (prime ec)
      in bind_result (prime_field_div sum py_2 (prime ec)) (\<lambda>s.
           let s_sq = prime_field_sq s (prime ec);
               rx = prime_field_sub s_sq px_2 (prime ec);
               tmp1 = prime_field_sub (px p) rx (prime ec);
               tmp2 = prime_field_mul s tmp1 (prime ec);
               ry = prime_field_sub tmp2 (py p) (prime ec)
           in Inr (r\<lparr>px := rx, py := ry\<rparr>)))"

text \<open>
  \<open>scalar_mult\<close>: the loop runs over the reversed string of bits of \<open>k\<close>; the state is
  \<open>(res, p_copy)\<close>.
\<close>

fun scalar_mult_loop :: "Curve \<Rightarrow> string \<Rightarrow> Point \<times> Point \<Rightarrow> error + Point" where
  "scalar_mult_loop ec [] (res, p_copy) = Inr res"
| "scalar_mult_loop ec (c # cs) (res, p_copy) =
     bind_result (if c = CHR ''1'' then point_add p_copy res ec else Inr res) (\<lambda>res.
     bind_result (point_double p_copy ec) (\<lambda>p_copy.
       scalar_mult_loop ec cs (res, p_copy)))"

definition scalar_mult :: "Point \<Rightarrow> int \<Rightarrow> Curve \<Rightarrow> error + Point" where
  "scalar_mult p k ec =
     scalar_mult_loop ec (rev (mpz_get_str 2 k)) (create_point, copy_point p)"

section \<open>Strings and scalars\<close>

text \<open>
  A C string is modelled by the list of its characters before the terminating NUL.
  \<open>mpz_init_set_str(rop, str, base)\<close> initialises \<open>rop\<close> to \<open>0\<close> and then parses as
  \<open>mpz_set_str\<close> does: leading white space is skipped, a minus sign may follow, the next
  character has to be a digit of the base, white space between the digits is ignored,
  letters count in both cases. It returns \<open>0\<close> and the value, or \<open>-1\<close> with \<open>rop\<close> left
  at \<open>0\<close>.
\<close>

definition isspace :: "char \<Rightarrow> bool" where
  "isspace c = (c = CHR '' '' \<or> c = CHR 0x09 \<or> c = CHR 0x0A \<or> c = CHR 0x0B
                \<or> c = CHR 0x0C \<or> c = CHR 0x0D)"

definition digit_value :: "char \<Rightarrow> nat" where
  "digit_value c =
     (let n = (of_char c :: nat)
      in if 48 \<le> n \<and> n \<le> 57 then n - 48
         else if 65 \<le> n \<and> n \<le> 90 then n - 55
         else if 97 \<le> n \<and> n \<le> 122 then n - 87
         else 255)"

definition mpz_init_set_str :: "string \<Rightarrow> nat \<Rightarrow> int \<times> int" where
  "mpz_init_set_str str base =
     (let s = dropWhile isspace str;
          negative = (case s of [] \<Rightarrow> False | c # _ \<Rightarrow> c = CHR ''-'');
          s = (if negative then tl s else s)
      in case s of
           [] \<Rightarrow> (- 1, 0)
         | c # _ \<Rightarrow>
             if digit_value c \<ge> base then (- 1, 0)
             else
               let ds = filter (\<lambda>c. \<not> isspace c) s
               in if list_all (\<lambda>c. digit_value c < base) ds
                  then (0, (if negative then - 1 else 1)
                           * foldl (\<lambda>acc c. acc * int base + int (digit_value c)) 0 ds)
                  else (- 1, 0))"

text \<open>\<open>str_to_scalar\<close> returns the status of the parse and the scalar it initialised.\<close>

definition str_to_scalar :: "string \<Rightarrow> int \<times> int" where
  "str_to_scalar str = mpz_init_set_str str 16"

text \<open>\<open>scalar_to_str\<close> returns the string and the length it stores in \<open>*len\<close>.\<close>

definition scalar_to_str :: "int \<Rightarrow> string \<times> nat" where
  "scalar_to_str scalar = (let str = mpz_get_str 16 scalar in (str, length str))"

section \<open>ecdh.c: point encoding\<close>

text \<open>
  \<open>str_to_point\<close>: \<open>str_end_idx\<close> is \<open>len / 2 - 1\<close> as an \<open>int\<close>; for a string shorter
  than two characters it is \<open>-1\<close> and the terminator is written before the start of the
  buffers. Otherwise the loop copies \<open>str_end_idx\<close> characters into each of \<open>x\<close> and
  \<open>y\<close>; the status that \<open>str_to_scalar\<close> returns is not looked at.
\<close>

definition str_to_point :: "string \<Rightarrow> error + Point" where
  "str_to_point str =
     (let len = length str;
          str_end_idx = int (len div 2) - 1
      in if str_end_idx < 0 then Inl OutOfBounds
         else
           let x = map (\<lambda>i. str ! (i + 2)) [0..<nat str_end_idx];
               y = map (\<lambda>i. str ! (i + 1 + len div 2)) [0..<nat str_end_idx]
           in Inr \<lparr>px = snd (str_to_scalar x), py = snd (str_to_scalar y)\<rparr>)"

text \<open>
  \<open>point_to_str\<close> writes into a buffer that \<open>calloc\<close> filled with NUL characters: the
  padding loops, the two tag characters, and two \<open>strncpy\<close> calls whose count is the
  length of the source, so that they copy its characters and no terminator. The result is
  the buffer read as a C string, with its \<open>strlen\<close>.
\<close>

definition calloc :: "nat \<Rightarrow> string" where
  "calloc n = replicate n (CHR 0x00)"

definition fill_zero_chars :: "string \<Rightarrow> nat \<Rightarrow> nat \<Rightarrow> string" where
  "fill_zero_chars res from to = fold (\<lambda>i r. r[i := CHR ''0'']) [from..<to] res"

definition strncpy :: "string \<Rightarrow> nat \<Rightarrow> string \<Rightarrow> nat \<Rightarrow> string" where
  "strncpy res off src n = fold (\<lambda>i r. r[off + i := src ! i]) [0..<n] res"

definition c_string :: "string \<Rightarrow> string" where
  "c_string buf = takeWhile (\<lambda>c. c \<noteq> CHR 0x00) buf"

definition point_to_str :: "Point \<Rightarrow> string \<times> nat" where
  "point_to_str point =
     (let (x, x_len) = scalar_to_str (px point);
          (y, y_len) = scalar_to_str (py point);
          (res, x_off, y_off) =
            (if x_len < y_len then
               let diff = y_len - x_len;
                   res = calloc (3 + x_len + y_len + diff)
               in (fill_zero_chars res 2 (2 + diff), 2 + diff, 0)
             else if y_len < x_len then
               let diff = x_len - y_len;
                   res = calloc (3 + x_len + y_len + diff)
               in (fill_zero_chars res (x_len + 2) (x_len + 2 + diff), 2, diff)
             else (calloc (3 + x_len + y_len), 2, 0));
          res = res[0 := CHR ''0''];
          res = res[1 := CHR ''4''];
          res = strncpy res x_off x x_len;
          res = strncpy res (x_off + y_off + x_len) y y_len
      in (c_string res, length (c_string res)))"

section \<open>ecdh.c: curves, key pairs and the shared secret\<close>

definition get_secp192k1_curve :: "error + Curve" where
  "get_secp192k1_curve =
     bind_result
       (str_to_point (''04''
          @ ''db4ff10ec057e9ae26b07d0280b7f4341da5d1b1eae06c7d''
          @ ''9b2f2f6d9c5628a7844163d015be86344082aa88d95e2f9d''))
       (\<lambda>g. Inr \<lparr>prime = snd (str_to_scalar (''ffffffffffffffff''
                                  @ ''ffffffffffffffff''
                                  @ ''fffffffeffffee37'')),
                 coef_a = 0,
                 coef_b = 3,
                 G = g,
                 order = snd (str_to_scalar (''ffffffffffffffff''
                                  @ ''fffffffe26f2fc17''
                                  @ ''0f69466a74defd8d'')),
                 cofactor = 1,
                 key_size_bits = 160\<rparr>)"

definition get_secp192r1_curve :: "error + Curve" where
  "get_secp192r1_curve =
     bind_result
       (str_to_point (''04''
          @ ''188DA80EB03090F67CBF20EB43A18800F4FF0AFD82FF1012''
          @ ''07192B95FFC8DA78631011ED6B24CDD573F977A11E794811''))
       (\<lambda>g. Inr \<lparr>prime = snd (str_to_scalar (''FFFFFFFFFFFFFFFF''
                                  @ ''FFFFFFFFFFFFFFFE''
                                  @ ''FFFFFFFFFFFFFFFF'')),
                 coef_a = snd (mpz_init_set_str (''FFFFFFFFFFFFFFFF''
                                  @ ''FFFFFFFFFFFFFFFE''
                                  @ ''FFFFFFFFFFFFFFFC'') 16),
                 coef_b = snd (mpz_init_set_str (''64210519E59C80E7''
                                  @ ''0FA7E9AB72243049''
                                  @ ''FEB8DEECC146B9B1'') 16),
                 G = g,
                 order = snd (str_to_scalar (''FFFFFFFFFFFFFFFF''
                                  @ ''FFFFFFFF99DEF836''
                                  @ ''146BC9B1B4D22831'')),
                 cofactor = 1,
                 key_size_bits = 160\<rparr>)"

record KeyPair =
  kp_private :: int
  kp_public :: string
  kp_ec :: Curve

text \<open>
  \<open>mpz_import(rop, count, 1, 1, 1, 0, data)\<close>: \<open>count\<close> bytes, most significant first,
  read as an unsigned number.
\<close>

definition mpz_import :: "nat \<Rightarrow> 8 word list \<Rightarrow> int" where
  "mpz_import count data = foldl (\<lambda>acc w. acc * 256 + uint w) 0 (take count data)"

text \<open>
  \<open>gen_key_pair\<close> selects the curve and then builds the key pair; the second part is
  \<open>gen_key_pair_on\<close>, so that it can be stated for any curve. The bytes that
  \<open>/dev/urandom\<close> delivers are the parameter \<open>urandom\<close>; \<open>fread\<close> stores at most \<open>bytes\<close>
  of them in a buffer that \<open>calloc\<close> filled with zero bytes.
\<close>

definition gen_key_pair_on :: "Curve \<Rightarrow> 8 word list \<Rightarrow> error + KeyPair" where
  "gen_key_pair_on ec urandom =
     (let bytes = key_size_bits ec div 8;
          buf = replicate (1 + bytes) (0 :: 8 word);
          buf = take bytes urandom @ drop (min bytes (length urandom)) buf;
          private = mpz_import bytes buf
      in bind_result (scalar_mult (G ec) private ec) (\<lambda>public_key.
           Inr \<lparr>kp_private = private,
                kp_public = fst (point_to_str public_key),
                kp_ec = ec\<rparr>))"

definition gen_key_pair :: "Curves \<Rightarrow> 8 word list \<Rightarrow> error + KeyPair" where
  "gen_key_pair curve urandom =
     bind_result
       (case curve of
          SECP_192_R1 \<Rightarrow> get_secp192r1_curve
        | _ \<Rightarrow> get_secp192k1_curve)
       (\<lambda>ec. gen_key_pair_on ec urandom)"

definition get_secret :: "KeyPair \<Rightarrow> string \<Rightarrow> error + (string \<times> nat)" where
  "get_secret key_pair peer =
     bind_result (str_to_point peer) (\<lambda>peer_point.
     bind_result (scalar_mult peer_point (kp_private key_pair) (kp_ec key_pair)) (\<lambda>res_point.
       Inr (point_to_str res_point)))"

text \<open>
  A small curve for concrete runs: \<open>y\<^sup>2 = x\<^sup>3 + x + 6\<close> over the field of 263 elements.
  It has 274 points; \<open>(3, 6)\<close> has order 137, and \<open>(8, 0)\<close> is a point of order two.
\<close>

definition curve263 :: Curve where
  "curve263 = \<lparr>prime = 263, coef_a = 1, coef_b = 6, G = \<lparr>px = 3, py = 6\<rparr>,
               order = 137, cofactor = 2, key_size_bits = 8\<rparr>"

section \<open>Reference definitions of scalar multiplication\<close>




section \<open>Definitions for the agreement of the shared secrets\<close>

text \<open>
  The data model of the specification asks for a prime modulus. \<open>is_prime\<close> says so by
  trial division, which can be run on a small modulus.
\<close>

definition is_prime :: "int \<Rightarrow> bool" where
  "is_prime p = (1 < p \<and> (\<forall>m\<in>{2..<p}. \<not> m dvd p))"

text \<open>
  \<open>coef_loop\<close> is a device of the proof, not a function of the program: it runs the loop
  of \<open>scalar_mult\<close> on coefficients. A state \<open>((a, s), (m, t))\<close> stands for the
  accumulator \<open>(a\<cdot>x mod p, s\<cdot>y mod p)\<close> and the running copy \<open>(m\<cdot>x mod p, t\<cdot>y mod p)\<close>
  of a point \<open>(x, y)\<close>; the accumulator \<open>(0, 0)\<close> is the identity.
\<close>

fun coef_loop :: "string \<Rightarrow> (int \<times> int) \<times> (int \<times> int) \<Rightarrow> int \<times> int" where
  "coef_loop [] (res, running) = res"
| "coef_loop (c # cs) ((a, s), (m, t)) =
     coef_loop cs
       (if c = CHR ''1'' then (if a = 0 \<and> s = 0 then (m, t) else (- (m + a), - t))
        else (a, s),
        (- 2 * m, - t))"

section \<open>Field arithmetic: what the functions return\<close>

lemma digit_char_simps [simp]:
  "digit_char 0 = CHR ''0''" "digit_char (Suc 0) = CHR ''1''"
  by (simp_all add: digit_char_def)

lemma mpz_get_str_small [simp]:
  "mpz_get_str_abs 2 0 = ''0''" "mpz_get_str_abs 2 1 = ''1''"
  "mpz_get_str_abs 2 2 = ''10''" "mpz_get_str_abs 2 3 = ''11''"
  "mpz_get_str_abs 16 0 = ''0''"
  by (simp_all add: mpz_get_str_abs.simps)

text \<open>The division loop ends for every input, and it never divides by zero.\<close>

lemma div_loop_returns: "\<exists>r. div_loop a s t u v copy_b copy_p = Inr r"
proof (induction a s t u v copy_b copy_p rule: div_loop.induct)
  case (1 a s t u v copy_b copy_p)
  show ?case
  proof (cases "copy_p = 0")
    case True
    then show ?thesis by (simp add: div_loop.simps)
  next
    case False
    then have "mpz_fdiv_qr a copy_p = Inr (a div copy_p, a mod copy_p)"
      by (simp add: mpz_fdiv_qr_def)
    with False 1 show ?thesis by (subst div_loop.simps) simp
  qed
qed

lemma prime_field_div_returns: "\<exists>r. prime_field_div a b p = Inr r"
proof -
  obtain u where "div_loop a 1 0 0 1 b p = Inr u"
    using div_loop_returns by blast
  then show ?thesis by (simp add: prime_field_div_def)
qed

text \<open>
  For a dividend in the field the loop runs at most twice: \<open>a\<close> divided by \<open>p\<close> leaves
  \<open>a\<close>, and \<open>a\<close> divided by \<open>a\<close> leaves \<open>0\<close>. It ends with \<open>u = 0\<close> (or with \<open>u = 1\<close>
  when \<open>a = 0\<close>), so the product with \<open>a\<close> is \<open>0\<close> whatever the divisor is.
\<close>

lemma div_in_field:
  "0 < p \<Longrightarrow> 0 \<le> a \<Longrightarrow> a < p \<Longrightarrow> prime_field_div a b p = Inr 0"
  by (cases "a = 0")
     (simp_all add: prime_field_div_def div_loop.simps mpz_fdiv_qr_def prime_field_mul_def
        mpz_get_str_def prime_field_add_def)

lemma add_in_field:
  "0 \<le> a \<Longrightarrow> a < p \<Longrightarrow> 0 \<le> b \<Longrightarrow> b < p \<Longrightarrow> prime_field_add a b p = (a + b) mod p"
proof -
  assume a: "0 \<le> a" "a < p" and b: "0 \<le> b" "b < p"
  show ?thesis
  proof (cases "a + b \<ge> p")
    case True
    have "(a + b) mod p = (a + b - p) mod p" by simp
    also have "\<dots> = a + b - p"
      using True a b by (intro mod_pos_pos_trivial) simp_all
    finally have "(a + b) mod p = a + b - p" .
    then show ?thesis using True by (simp add: prime_field_add_def)
  next
    case False
    then show ?thesis using a b by (simp add: prime_field_add_def)
  qed
qed

lemma sub_in_field:
  "0 \<le> a \<Longrightarrow> a < p \<Longrightarrow> 0 \<le> b \<Longrightarrow> b < p \<Longrightarrow> prime_field_sub a b p = (a - b) mod p"
proof -
  assume a: "0 \<le> a" "a < p" and b: "0 \<le> b" "b < p"
  show ?thesis
  proof (cases "a - b < 0")
    case True
    have "(a - b) mod p = (a - b + p) mod p" by simp
    also have "\<dots> = a - b + p"
      using True a b by (intro mod_pos_pos_trivial) simp_all
    finally have "(a - b) mod p = a - b + p" .
    then show ?thesis using True a b by (simp add: prime_field_sub_def prime_field_add_def)
  next
    case False
    then show ?thesis using a b by (simp add: prime_field_sub_def prime_field_add_def)
  qed
qed

lemma mul_loop_range:
  "0 < p \<Longrightarrow> 0 \<le> res \<Longrightarrow> res < p \<Longrightarrow> 0 \<le> copy \<Longrightarrow> copy < p \<Longrightarrow>
     0 \<le> mul_loop p cs (res, copy) \<and> mul_loop p cs (res, copy) < p"
proof (induction cs arbitrary: res copy)
  case Nil
  then show ?case by simp
next
  case (Cons c cs)
  have "0 \<le> prime_field_add res copy p \<and> prime_field_add res copy p < p"
    using Cons.prems by (simp add: add_in_field)
  moreover have "0 \<le> prime_field_add copy copy p \<and> prime_field_add copy copy p < p"
    using Cons.prems by (simp add: add_in_field)
  ultimately show ?case using Cons.IH Cons.prems by simp
qed

lemma mul_range:
  "0 < p \<Longrightarrow> 0 \<le> a \<Longrightarrow> a < p \<Longrightarrow>
     0 \<le> prime_field_mul a b p \<and> prime_field_mul a b p < p"
  by (simp add: prime_field_mul_def mul_loop_range)

lemma mul_loop_zero: "0 < p \<Longrightarrow> mul_loop p cs (0, 0) = 0"
  by (induction cs) (simp_all add: prime_field_add_def)

lemma mul_zero_left: "0 < p \<Longrightarrow> prime_field_mul 0 b p = 0"
  by (simp add: prime_field_mul_def mul_loop_zero)

lemma mul_zero_right: "0 < p \<Longrightarrow> prime_field_mul a 0 p = 0"
  by (simp add: prime_field_mul_def mpz_get_str_def)

lemma mul_two: "0 \<le> a \<Longrightarrow> a < p \<Longrightarrow> prime_field_mul a 2 p = (2 * a) mod p"
proof -
  assume a: "0 \<le> a" "a < p"
  then have "prime_field_add 0 ((2 * a) mod p) p = (2 * a) mod p"
    by (subst add_in_field) simp_all
  then show ?thesis
    using a by (simp add: prime_field_mul_def mpz_get_str_def add_in_field)
qed

lemma sq_range:
  "1 < p \<Longrightarrow> 0 \<le> a \<Longrightarrow> a < p \<Longrightarrow> 0 \<le> prime_field_sq a p \<and> prime_field_sq a p < p"
  by (simp add: prime_field_sq_def mul_range)

lemma sq_zero: "0 < p \<Longrightarrow> prime_field_sq 0 p = 0"
  by (simp add: prime_field_sq_def mul_zero_left mul_zero_right)

lemma point_double_in_field:
  assumes "1 < prime ec" and "0 \<le> coef_a ec" and "coef_a ec < prime ec"
    and "0 \<le> px p" and "px p < prime ec" and "0 \<le> py p" and "py p < prime ec"
  shows "point_double p ec =
     Inr \<lparr>px = (- 2 * px p) mod prime ec, py = (- py p) mod prime ec\<rparr>"
proof -
  let ?p = "prime ec"
  let ?sum = "prime_field_add (prime_field_mul (prime_field_sq (px p) ?p) 3 ?p) (coef_a ec) ?p"
  have "0 \<le> prime_field_sq (px p) ?p \<and> prime_field_sq (px p) ?p < ?p"
    using assms by (intro sq_range) simp_all
  then have "0 \<le> prime_field_mul (prime_field_sq (px p) ?p) 3 ?p \<and>
      prime_field_mul (prime_field_sq (px p) ?p) 3 ?p < ?p"
    using assms by (intro mul_range) simp_all
  then have "0 \<le> ?sum \<and> ?sum < ?p"
    using assms by (simp add: add_in_field)
  then have s: "\<And>b. prime_field_div ?sum b ?p = Inr 0"
    using assms by (intro div_in_field) simp_all
  have rx: "prime_field_sub 0 ((2 * px p) mod ?p) ?p = (- 2 * px p) mod ?p"
    using assms by (subst sub_in_field) (simp_all add: mod_minus_eq)
  have ry: "prime_field_sub 0 (py p) ?p = (- py p) mod ?p"
    using assms by (subst sub_in_field) simp_all
  have p0: "0 < ?p" using assms by simp
  have two: "prime_field_mul (px p) 2 ?p = (2 * px p) mod ?p"
    using assms by (intro mul_two) simp_all
  show ?thesis
    unfolding point_double_def Let_def
    using p0 rx ry
    by (simp add: s sq_zero mul_zero_left two create_point_def)
qed

lemma point_add_in_field:
  assumes "1 < prime ec"
    and "0 \<le> px p" and "px p < prime ec" and "0 \<le> py p" and "py p < prime ec"
    and "0 \<le> px q" and "px q < prime ec" and "0 \<le> py q" and "py q < prime ec"
    and "px p \<noteq> 0 \<or> py p \<noteq> 0" and "px q \<noteq> 0 \<or> py q \<noteq> 0" and "px p \<noteq> px q"
  shows "point_add p q ec =
     Inr \<lparr>px = (- (px p + px q)) mod prime ec, py = (- py p) mod prime ec\<rparr>"
proof -
  let ?p = "prime ec"
  have "0 \<le> prime_field_sub (py p) (py q) ?p \<and> prime_field_sub (py p) (py q) ?p < ?p"
    using assms by (simp add: sub_in_field)
  then have s: "\<And>b. prime_field_div (prime_field_sub (py p) (py q) ?p) b ?p = Inr 0"
    using assms by (intro div_in_field) simp_all
  have np: "(px p = 0 \<and> py p = 0) = False" and nq: "(px q = 0 \<and> py q = 0) = False"
    using assms by auto
  have rx: "prime_field_sub 0 ((px p + px q) mod ?p) ?p = (- (px p + px q)) mod ?p"
    using assms by (subst sub_in_field) (simp_all add: mod_minus_eq)
  have ry: "prime_field_sub 0 (py p) ?p = (- py p) mod ?p"
    using assms by (subst sub_in_field) simp_all
  have p0: "0 < ?p" using assms by simp
  have add: "prime_field_add (px p) (px q) ?p = (px p + px q) mod ?p"
    using assms by (intro add_in_field) simp_all
  show ?thesis
    unfolding point_add_def Let_def np nq
    using assms(12) p0 rx ry
    by (simp add: s sq_zero mul_zero_left add create_point_def)
qed

section \<open>The point functions always return\<close>

lemma point_double_returns: "\<exists>r. point_double p ec = Inr r"
proof -
  obtain s where "prime_field_div
       (prime_field_add (prime_field_mul (prime_field_sq (px p) (prime ec)) 3 (prime ec))
          (coef_a ec) (prime ec))
       (prime_field_mul (py p) 2 (prime ec)) (prime ec) = Inr s"
    using prime_field_div_returns by blast
  then show ?thesis by (simp add: point_double_def Let_def)
qed

lemma point_add_returns: "\<exists>r. point_add p q ec = Inr r"
proof -
  obtain s where "prime_field_div (prime_field_sub (py p) (py q) (prime ec))
       (prime_field_sub (px p) (px q) (prime ec)) (prime ec) = Inr s"
    using prime_field_div_returns by blast
  then show ?thesis by (simp add: point_add_def Let_def)
qed

lemma scalar_mult_loop_returns: "\<exists>r. scalar_mult_loop ec cs (res, p_copy) = Inr r"
proof (induction cs arbitrary: res p_copy)
  case Nil
  show ?case by simp
next
  case (Cons c cs)
  obtain a where a: "point_add p_copy res ec = Inr a"
    using point_add_returns by blast
  obtain d where d: "point_double p_copy ec = Inr d"
    using point_double_returns by blast
  show ?case using Cons.IH a d by simp
qed

lemma scalar_mult_returns: "\<exists>r. scalar_mult p k ec = Inr r"
  by (simp add: scalar_mult_def scalar_mult_loop_returns)

section \<open>Decoding a point, and the two curves\<close>

lemma str_to_point_fields:
  assumes "2 \<le> length str"
  shows "str_to_point str =
     Inr \<lparr>px = snd (str_to_scalar (take (length str div 2 - 1) (drop 2 str))),
          py = snd (str_to_scalar (take (length str div 2 - 1) (drop (1 + length str div 2) str)))\<rparr>"
proof -
  let ?n = "length str div 2 - 1"
  have n: "nat (int (length str div 2) - 1) = ?n" by simp
  have x: "map (\<lambda>i. str ! (i + 2)) [0..<?n] = take ?n (drop 2 str)"
    using assms by (auto intro!: nth_equalityI simp: add.commute)
  have y: "map (\<lambda>i. str ! (i + 1 + length str div 2)) [0..<?n]
             = take ?n (drop (1 + length str div 2) str)"
    using assms by (auto intro!: nth_equalityI simp: add.commute add.left_commute)
  have "\<not> int (length str div 2) - 1 < 0" using assms by simp
  then show ?thesis
    unfolding str_to_point_def Let_def n x y by simp
qed

lemmas scalar_defs = str_to_scalar_def mpz_init_set_str_def isspace_def digit_value_def

lemma secp192k1_curve:
  "get_secp192k1_curve =
     Inr \<lparr>prime = 6277101735386680763835789423207666416102355444459739541047,
          coef_a = 0, coef_b = 3,
          G = \<lparr>px = 5377521262291226325198505011805525673063229037935769709693,
                 py = 3805108391982600717572440947423858335415441070543209377693\<rparr>,
          order = 6277101735386680763835789423061264271957123915200845512077,
          cofactor = 1, key_size_bits = 160\<rparr>"
  by (simp add: get_secp192k1_curve_def str_to_point_fields Let_def scalar_defs)

lemma secp192r1_curve:
  "get_secp192r1_curve =
     Inr \<lparr>prime = 6277101735386680763835789423207666416083908700390324961279,
          coef_a = 6277101735386680763835789423207666416083908700390324961276,
          coef_b = 2455155546008943817740293915197451784769108058161191238065,
          G = \<lparr>px = 602046282375688656758213480587526111916698976636884684818,
                 py = 174050332293622031404857552280219410364023488927386650641\<rparr>,
          order = 6277101735386680763835789423176059013767194773182842284081,
          cofactor = 1, key_size_bits = 160\<rparr>"
  by (simp add: get_secp192r1_curve_def str_to_point_fields Let_def scalar_defs)

section \<open>The private scalar\<close>

lemma import_bounds:
  "0 \<le> a \<Longrightarrow> 0 \<le> foldl (\<lambda>acc w. acc * 256 + uint w) a (ws :: 8 word list) \<and>
     foldl (\<lambda>acc w. acc * 256 + uint w) a ws < (a + 1) * 256 ^ length ws"
proof (induction ws arbitrary: a)
  case Nil
  then show ?case by simp
next
  case (Cons w ws)
  have w: "0 \<le> uint w" "uint w < 256"
    using uint_bounded [of w] by simp_all
  have "0 \<le> a * 256 + uint w" using Cons.prems w by simp
  from Cons.IH [OF this]
  have ih: "0 \<le> foldl (\<lambda>acc w. acc * 256 + uint w) (a * 256 + uint w) ws"
    "foldl (\<lambda>acc w. acc * 256 + uint w) (a * 256 + uint w) ws
       < (a * 256 + uint w + 1) * 256 ^ length ws"
    by simp_all
  have "(a * 256 + uint w + 1) * 256 ^ length ws \<le> ((a + 1) * 256) * 256 ^ length ws"
    using w by (intro mult_right_mono) simp_all
  then have "(a * 256 + uint w + 1) * 256 ^ length ws \<le> (a + 1) * 256 ^ length (w # ws)"
    by (simp add: mult.assoc)
  with ih show ?case by (simp del: power_Suc)
qed

lemma mpz_import_bounds: "0 \<le> mpz_import count data \<and> mpz_import count data < 256 ^ count"
proof -
  have "mpz_import count data < 256 ^ length (take count data)"
    using import_bounds [of 0 "take count data"] by (simp add: mpz_import_def)
  also have "(256::int) ^ length (take count data) \<le> 256 ^ count"
    by (intro power_increasing) simp_all
  finally show ?thesis
    using import_bounds [of 0 "take count data"] by (simp add: mpz_import_def)
qed

lemma gen_key_pair_on_private:
  "\<exists>kp. gen_key_pair_on ec urandom = Inr kp \<and> kp_ec kp = ec \<and>
     kp_private kp = mpz_import (key_size_bits ec div 8)
       (take (key_size_bits ec div 8) urandom
        @ drop (min (key_size_bits ec div 8) (length urandom))
            (replicate (1 + key_size_bits ec div 8) 0))"
proof -
  obtain q where "scalar_mult (G ec) (mpz_import (key_size_bits ec div 8)
       (take (key_size_bits ec div 8) urandom
        @ drop (min (key_size_bits ec div 8) (length urandom))
            (replicate (1 + key_size_bits ec div 8) 0))) ec = Inr q"
    using scalar_mult_returns by blast
  then show ?thesis by (simp add: gen_key_pair_on_def Let_def)
qed

lemma scalar_mult_zero: "scalar_mult p 0 ec = Inr create_point"
proof -
  obtain d where "point_double (copy_point p) ec = Inr d"
    using point_double_returns by blast
  then show ?thesis
    by (simp add: scalar_mult_def mpz_get_str_def)
qed

lemma point_to_str_identity: "point_to_str create_point = (''0400'', 4)"
  by code_simp

lemma import_zeros: "foldl (\<lambda>acc w. acc * 256 + uint w) 0 (replicate n (0::8 word)) = 0"
  by (induction n) simp_all

lemma str_to_scalar_status: "fst (str_to_scalar s) = 0 \<or> snd (str_to_scalar s) = 0"
  by (simp add: str_to_scalar_def mpz_init_set_str_def Let_def split: list.splits)

section \<open>Hexadecimal strings and the encoding buffer\<close>

lemma below_16: "(d::nat) < 16 \<Longrightarrow> d \<in> {0, 1, 2, 3, 4, 5, 6, 7, 8, 9, 10, 11, 12, 13, 14, 15}"
  by simp arith

lemma digit_value_digit_char: "d < 16 \<Longrightarrow> digit_value (digit_char d) = d"
  by (drule below_16) (auto simp: digit_char_def digit_value_def)

lemma digit_char_not_NUL: "digit_char d \<noteq> CHR 0x00"
proof -
  have "d mod 16 < 16" by simp
  then have "''0123456789abcdef'' ! (d mod 16) \<noteq> CHR 0x00"
    by (rule below_16 [THEN rev_mp]) (auto simp del: mod_less_divisor)
  then show ?thesis by (simp add: digit_char_def)
qed
lemma digit_value_lt_16: "digit_value (digit_char d) < 16"
proof -
  have "digit_char d = digit_char (d mod 16)" by (simp add: digit_char_def)
  then show ?thesis using digit_value_digit_char [of "d mod 16"] by simp
qed


lemma hex_digits:
  "list_all (\<lambda>c. digit_value c < 16) (mpz_get_str_abs 16 n) \<and>
   list_all (\<lambda>c. c \<noteq> CHR 0x00) (mpz_get_str_abs 16 n) \<and>
   mpz_get_str_abs 16 n \<noteq> []"
proof (induction "16::nat" n rule: mpz_get_str_abs.induct)
  case (1 n)
  show ?case
  proof (cases "n < 16")
    case True
    then show ?thesis
      by (simp add: mpz_get_str_abs.simps digit_value_lt_16 digit_char_not_NUL)
  next
    case False
    then have "mpz_get_str_abs 16 n
        = mpz_get_str_abs 16 (n div 16) @ [digit_char (nat (n mod 16))]"
      by (subst mpz_get_str_abs.simps) simp
    with False 1 show ?thesis
      by (simp add: digit_value_lt_16 digit_char_not_NUL)
  qed
qed

lemma hex_value:
  "0 \<le> n \<Longrightarrow>
     foldl (\<lambda>acc c. acc * int 16 + int (digit_value c)) a (mpz_get_str_abs 16 n)
       = a * 16 ^ length (mpz_get_str_abs 16 n) + n"
proof (induction "16::nat" n arbitrary: a rule: mpz_get_str_abs.induct)
  case (1 n)
  show ?case
  proof (cases "n < 16")
    case True
    with 1(2) have "nat n < 16" by simp
    then show ?thesis
      using True 1(2) by (simp add: mpz_get_str_abs.simps digit_value_digit_char)
  next
    case False
    have m: "nat (n mod 16) < 16" by simp
    have ih: "foldl (\<lambda>acc c. acc * int 16 + int (digit_value c)) a (mpz_get_str_abs 16 (n div 16))
       = a * 16 ^ length (mpz_get_str_abs 16 (n div 16)) + n div 16"
      using 1(1) [of a] False 1(2) by simp
    have str: "mpz_get_str_abs 16 n = mpz_get_str_abs 16 (n div 16) @ [digit_char (nat (n mod 16))]"
      using False by (subst mpz_get_str_abs.simps) simp
    show ?thesis
      unfolding str using ih m by (simp add: digit_value_digit_char algebra_simps)
  qed
qed


lemma digit_value_zero_char: "digit_value (CHR ''0'') = 0"
  by (simp add: digit_value_def)

lemma digit_value_not_space: "digit_value c < 16 \<Longrightarrow> \<not> isspace c \<and> c \<noteq> CHR ''-''"
  by (auto simp: isspace_def digit_value_def)

lemma mpz_init_set_str_digits:
  assumes "s \<noteq> []" and "list_all (\<lambda>c. digit_value c < 16) s"
  shows "mpz_init_set_str s 16 = (0, foldl (\<lambda>acc c. acc * int 16 + int (digit_value c)) 0 s)"
proof -
  obtain c cs where s: "s = c # cs" using assms(1) by (cases s) auto
  have c: "digit_value c < 16" "\<not> isspace c" "c \<noteq> CHR ''-''"
    using assms(2) digit_value_not_space [of c] by (simp_all add: s)
  have "\<forall>c\<in>set s. \<not> isspace c"
    using assms(2) digit_value_not_space by (auto simp: list_all_iff)
  then have f: "filter (\<lambda>c. \<not> isspace c) s = s" by (simp add: filter_id_conv)
  show ?thesis
    using c assms(2) f unfolding mpz_init_set_str_def s [symmetric]
    by (simp add: s Let_def)
qed

lemma leading_zeros_value:
  "foldl (\<lambda>acc c. acc * int 16 + int (digit_value c)) 0 (replicate k (CHR ''0'') @ s)
     = foldl (\<lambda>acc c. acc * int 16 + int (digit_value c)) 0 s"
proof -
  have "foldl (\<lambda>acc c. acc * int 16 + int (digit_value c)) 0 (replicate k (CHR ''0'')) = 0"
    by (induction k) (simp_all add: digit_value_zero_char)
  then show ?thesis by simp
qed

lemma str_to_scalar_padded_hex:
  assumes "0 \<le> n"
  shows "str_to_scalar (replicate k (CHR ''0'') @ mpz_get_str 16 n) = (0, n)"
proof -
  let ?s = "replicate k (CHR ''0'') @ mpz_get_str_abs 16 n"
  have "list_all (\<lambda>c. digit_value c < 16) (replicate k (CHR ''0''))"
    by (induction k) (simp_all add: digit_value_zero_char)
  then have "list_all (\<lambda>c. digit_value c < 16) ?s"
    using hex_digits [of n] by simp
  moreover have "?s \<noteq> []"
    using hex_digits [of n] by simp
  ultimately have "mpz_init_set_str ?s 16
      = (0, foldl (\<lambda>acc c. acc * int 16 + int (digit_value c)) 0 ?s)"
    by (intro mpz_init_set_str_digits)
  also have "foldl (\<lambda>acc c. acc * int 16 + int (digit_value c)) 0 ?s = n"
    using hex_value [OF assms, of 0] by (simp only: leading_zeros_value)
  finally show ?thesis using assms by (simp add: str_to_scalar_def mpz_get_str_def)
qed

lemma update_after_two:
  "length pre = a \<Longrightarrow> length mid = b \<Longrightarrow>
     (pre @ mid @ x # rest)[a + b := v] = pre @ mid @ v # rest"
  by (simp add: list_update_append)

lemma fold_update_range:
  "off + n \<le> length res \<Longrightarrow>
     fold (\<lambda>i r. r[off + i := f i]) [0..<n] res
       = take off res @ map f [0..<n] @ drop (off + n) res"
proof (induction n)
  case 0
  then show ?case by simp
next
  case (Suc n)
  then have ih: "fold (\<lambda>i r. r[off + i := f i]) [0..<n] res
       = take off res @ map f [0..<n] @ drop (off + n) res" by simp
  have d: "drop (off + n) res = res ! (off + n) # drop (Suc (off + n)) res"
    using Suc.prems by (simp add: Cons_nth_drop_Suc)
  have len: "length (take off res) = off" "length (map f [0..<n]) = n"
    using Suc.prems by simp_all
  have "fold (\<lambda>i r. r[off + i := f i]) [0..<Suc n] res
      = (take off res @ map f [0..<n] @ res ! (off + n) # drop (Suc (off + n)) res)
          [off + n := f n]"
    using ih d by simp
  also have "\<dots> = take off res @ map f [0..<n] @ f n # drop (Suc (off + n)) res"
    using len by (rule update_after_two)
  finally show ?case by simp
qed

lemma strncpy_whole:
  assumes "off + length src \<le> length res"
  shows "strncpy res off src (length src) = take off res @ src @ drop (off + length src) res"
  using fold_update_range [OF assms, of "\<lambda>i. src ! i"]
  by (simp add: strncpy_def map_nth)

lemma fill_zero_chars_range:
  assumes "from + d \<le> length res"
  shows "fill_zero_chars res from (from + d)
     = take from res @ replicate d (CHR ''0'') @ drop (from + d) res"
proof -
  have "[from..<from + d] = map (\<lambda>i. from + i) [0..<d]"
    by (simp add: map_add_upt add.commute)
  then have "fill_zero_chars res from (from + d)
      = fold (\<lambda>i r. r[from + i := CHR ''0'']) [0..<d] res"
    by (simp add: fill_zero_chars_def fold_map comp_def)
  also have "\<dots> = take from res @ map (\<lambda>i. CHR ''0'') [0..<d] @ drop (from + d) res"
    using assms by (rule fold_update_range)
  finally show ?thesis by (simp add: map_replicate_const)
qed

lemma c_string_buffer:
  "list_all (\<lambda>c. c \<noteq> CHR 0x00) s \<Longrightarrow> c_string (s @ replicate (Suc k) (CHR 0x00)) = s"
  by (simp add: c_string_def list_all_iff)

lemma strncpy_over:
  assumes "length pre = off" and "length src = n"
  shows "strncpy (pre @ replicate n c @ post) off src n = pre @ src @ post"
proof -
  have "off + length src \<le> length (pre @ replicate n c @ post)"
    using assms by simp
  then have "strncpy (pre @ replicate n c @ post) off src (length src)
      = take off (pre @ replicate n c @ post) @ src
          @ drop (off + length src) (pre @ replicate n c @ post)"
    by (rule strncpy_whole)
  then show ?thesis using assms by simp
qed

lemma fill_zero_chars_over:
  assumes "length pre = from"
  shows "fill_zero_chars (pre @ replicate d c @ post) from (from + d)
     = pre @ replicate d (CHR ''0'') @ post"
proof -
  have "from + d \<le> length (pre @ replicate d c @ post)"
    using assms by simp
  then have "fill_zero_chars (pre @ replicate d c @ post) from (from + d)
      = take from (pre @ replicate d c @ post) @ replicate d (CHR ''0'')
          @ drop (from + d) (pre @ replicate d c @ post)"
    by (rule fill_zero_chars_range)
  then show ?thesis using assms by simp
qed

lemma list_all_replicate: "P c \<Longrightarrow> list_all P (replicate n c)"
  by (induction n) simp_all

lemma point_to_str_form:
  fixes point :: Point
  defines "x \<equiv> mpz_get_str 16 (px point)" and "y \<equiv> mpz_get_str 16 (py point)"
  assumes nx: "list_all (\<lambda>c. c \<noteq> CHR 0x00) x" and ny: "list_all (\<lambda>c. c \<noteq> CHR 0x00) y"
  shows "fst (point_to_str point) =
     ''04'' @ replicate (length y - length x) (CHR ''0'') @ x
            @ replicate (length x - length y) (CHR ''0'') @ y"
proof -
  let ?Z = "CHR 0x00"
  let ?xl = "length x" and ?yl = "length y"
  have sx: "scalar_to_str (px point) = (x, ?xl)" and sy: "scalar_to_str (py point) = (y, ?yl)"
    by (simp_all add: scalar_to_str_def x_def y_def Let_def)
  have tag: "\<And>rest. ([?Z, ?Z] @ rest)[0 := CHR ''0'', 1 := CHR ''4''] = ''04'' @ rest"
    by simp
  consider (lt) "?xl < ?yl" | (gt) "?yl < ?xl" | (eq) "?xl = ?yl" by linarith
  then show ?thesis
  proof cases
    case lt
    define d where "d = ?yl - ?xl"
    have b0: "calloc (3 + ?xl + ?yl + d)
        = [?Z, ?Z] @ replicate d ?Z @ replicate ?xl ?Z @ replicate ?yl ?Z @ [?Z]"
      unfolding calloc_def by (rule sym, rule replicate_eqI) (auto split: if_splits)
    have b1: "fill_zero_chars (calloc (3 + ?xl + ?yl + d)) 2 (2 + d)
        = [?Z, ?Z] @ replicate d (CHR ''0'') @ replicate ?xl ?Z @ replicate ?yl ?Z @ [?Z]"
      unfolding b0 by (rule fill_zero_chars_over) simp
    have b3: "strncpy ((''04'' @ replicate d (CHR ''0'')) @ replicate ?xl ?Z @ replicate ?yl ?Z @ [?Z])
          (2 + d) x ?xl
        = (''04'' @ replicate d (CHR ''0'')) @ x @ replicate ?yl ?Z @ [?Z]"
      by (rule strncpy_over) simp_all
    have b4: "strncpy ((''04'' @ replicate d (CHR ''0'') @ x) @ replicate ?yl ?Z @ [?Z])
          (2 + d + ?xl) y ?yl
        = (''04'' @ replicate d (CHR ''0'') @ x) @ y @ [?Z]"
      by (rule strncpy_over) simp_all
    have c: "c_string ((''04'' @ replicate d (CHR ''0'') @ x @ y) @ replicate (Suc 0) ?Z)
        = ''04'' @ replicate d (CHR ''0'') @ x @ y"
      using nx ny by (intro c_string_buffer) (simp add: list_all_replicate)
    show ?thesis
      using lt b3 b4 c
      by (simp add: point_to_str_def sx sy Let_def d_def [symmetric] b1 [simplified])
  next
    case gt
    define d where "d = ?xl - ?yl"
    have b0: "calloc (3 + ?xl + ?yl + d)
        = ([?Z, ?Z] @ replicate ?xl ?Z) @ replicate d ?Z @ replicate ?yl ?Z @ [?Z]"
      unfolding calloc_def by (rule sym, rule replicate_eqI) (auto split: if_splits)
    have b1: "fill_zero_chars (calloc (3 + ?xl + ?yl + d)) (?xl + 2) (?xl + 2 + d)
        = ([?Z, ?Z] @ replicate ?xl ?Z) @ replicate d (CHR ''0'') @ replicate ?yl ?Z @ [?Z]"
      unfolding b0 by (rule fill_zero_chars_over) simp
    have b3: "strncpy (''04'' @ replicate ?xl ?Z @ replicate d (CHR ''0'') @ replicate ?yl ?Z @ [?Z])
          2 x ?xl
        = ''04'' @ x @ replicate d (CHR ''0'') @ replicate ?yl ?Z @ [?Z]"
      by (rule strncpy_over) simp_all
    have b4: "strncpy ((''04'' @ x @ replicate d (CHR ''0'')) @ replicate ?yl ?Z @ [?Z])
          (2 + d + ?xl) y ?yl
        = (''04'' @ x @ replicate d (CHR ''0'')) @ y @ [?Z]"
      by (rule strncpy_over) simp_all
    have c: "c_string ((''04'' @ x @ replicate d (CHR ''0'') @ y) @ replicate (Suc 0) ?Z)
        = ''04'' @ x @ replicate d (CHR ''0'') @ y"
      using nx ny by (intro c_string_buffer) (simp add: list_all_replicate)
    show ?thesis
      using gt b3 b4 c
      by (simp add: point_to_str_def sx sy Let_def d_def [symmetric] b1 [simplified])
  next
    case eq
    have b0: "calloc (3 + ?yl + ?yl)
        = [?Z, ?Z] @ replicate ?yl ?Z @ replicate ?yl ?Z @ [?Z]"
      unfolding calloc_def by (rule sym, rule replicate_eqI) (auto split: if_splits)
    have b3: "strncpy (''04'' @ replicate ?yl ?Z @ replicate ?yl ?Z @ [?Z]) 2 x ?yl
        = ''04'' @ x @ replicate ?yl ?Z @ [?Z]"
      using eq by (intro strncpy_over) simp_all
    have b4: "strncpy ((''04'' @ x) @ replicate ?yl ?Z @ [?Z]) (2 + 0 + ?yl) y ?yl
        = (''04'' @ x) @ y @ [?Z]"
      using eq by (intro strncpy_over) simp_all
    have c: "c_string ((''04'' @ x @ y) @ replicate (Suc 0) ?Z) = ''04'' @ x @ y"
      using nx ny by (intro c_string_buffer) simp
    show ?thesis
      using eq b3 b4 c
      by (simp add: point_to_str_def sx sy Let_def b0 [simplified])
  qed
qed

lemma point_to_str_len: "snd (point_to_str point) = length (fst (point_to_str point))"
  by (simp add: point_to_str_def Let_def split: prod.splits)

lemma hex_no_NUL: "0 \<le> n \<Longrightarrow> list_all (\<lambda>c. c \<noteq> CHR 0x00) (mpz_get_str 16 n)"
  using hex_digits [of n] by (simp add: mpz_get_str_def)

lemma point_to_str_padded:
  assumes "0 \<le> px point" and "0 \<le> py point"
  shows "fst (point_to_str point) =
     ''04'' @ replicate (length (mpz_get_str 16 (py point)) - length (mpz_get_str 16 (px point)))
               (CHR ''0'') @ mpz_get_str 16 (px point)
            @ replicate (length (mpz_get_str 16 (px point)) - length (mpz_get_str 16 (py point)))
               (CHR ''0'') @ mpz_get_str 16 (py point)"
  using assms by (intro point_to_str_form hex_no_NUL)

lemma decode_encode:
  assumes "0 \<le> px point" and "0 \<le> py point"
  shows "str_to_point (fst (point_to_str point)) = Inr point"
proof -
  define x where "x = mpz_get_str 16 (px point)"
  define y where "y = mpz_get_str 16 (py point)"
  define fx where "fx = replicate (length y - length x) (CHR ''0'') @ x"
  define fy where "fy = replicate (length x - length y) (CHR ''0'') @ y"
  have enc: "fst (point_to_str point) = ''04'' @ fx @ fy"
    using point_to_str_padded [OF assms] by (simp add: x_def y_def fx_def fy_def)
  have len: "length fx = length fy" by (simp add: fx_def fy_def)
  have n: "length (''04'' @ fx @ fy) div 2 - 1 = length fy"
    using len by simp
  have h: "1 + length (''04'' @ fx @ fy) div 2 = length (''04'' @ fx)"
    using len by simp
  have x: "take (length (''04'' @ fx @ fy) div 2 - 1) (drop 2 (''04'' @ fx @ fy)) = fx"
    unfolding n using len by simp
  have y: "take (length (''04'' @ fx @ fy) div 2 - 1)
             (drop (1 + length (''04'' @ fx @ fy) div 2) (''04'' @ fx @ fy)) = fy"
    unfolding n h by simp
  have sx: "str_to_scalar fx = (0, px point)" and sy: "str_to_scalar fy = (0, py point)"
    unfolding fx_def fy_def x_def y_def using assms by (simp_all add: str_to_scalar_padded_hex)
  have "2 \<le> length (''04'' @ fx @ fy)" by simp
  then have "str_to_point (''04'' @ fx @ fy)
      = Inr \<lparr>px = snd (str_to_scalar fx), py = snd (str_to_scalar fy)\<rparr>"
    by (simp only: str_to_point_fields x y)
  then show ?thesis by (simp add: enc sx sy)
qed

section \<open>Scalar multiplication is double-and-add\<close>

lemma copy_point_same [simp]: "copy_point p = p"
  by (simp add: copy_point_def create_point_def)







section \<open>Arithmetic modulo a prime\<close>

lemma is_prime_263: "is_prime 263"
  by code_simp

lemma is_prime_coprime:
  assumes "is_prime p" and "0 < x" and "x < p"
  shows "coprime x p"
proof -
  let ?g = "gcd x p"
  have g0: "0 < ?g" using assms by (simp add: gcd_pos_int)
  have "?g dvd x" by simp
  then have gx: "?g \<le> x" using assms(2) by (rule zdvd_imp_le)
  have "\<not> 2 \<le> ?g"
  proof
    assume "2 \<le> ?g"
    then have "?g \<in> {2..<p}" using gx assms(3) by simp
    then have "\<not> ?g dvd p" using assms(1) unfolding is_prime_def by blast
    then show False by simp
  qed
  then have "?g = 1" using g0 by linarith
  then show ?thesis by (simp add: coprime_iff_gcd_eq_1)
qed

lemma prime_dvd_mult:
  assumes "is_prime p" and "p dvd a * b"
  shows "p dvd a \<or> p dvd b"
proof (cases "p dvd a")
  case True
  then show ?thesis by simp
next
  case False
  have p: "1 < p" using assms(1) by (simp add: is_prime_def)
  have "0 \<le> a mod p" "a mod p \<noteq> 0" "a mod p < p"
    using False p by (simp_all add: dvd_eq_mod_eq_0)
  then have "0 < a mod p" "a mod p < p" by simp_all
  then have "coprime (a mod p) p" using assms(1) by (intro is_prime_coprime)
  then have "gcd p (a mod p) = 1"
    by (simp add: coprime_iff_gcd_eq_1 gcd.commute)
  then have "gcd a p = 1"
    by (simp add: gcd_red_int [of a p])
  then have "coprime p a"
    by (simp add: coprime_iff_gcd_eq_1 gcd.commute)
  then show ?thesis using assms(2) by (simp add: coprime_dvd_mult_right_iff)
qed

lemma not_dvd_small: "(x::int) \<noteq> 0 \<Longrightarrow> \<bar>x\<bar> < p \<Longrightarrow> \<not> p dvd x"
  using dvd_imp_le_int [of x p] by auto

lemma no_collision:
  assumes "is_prime p" and "0 < x" and "x < p" and "m \<noteq> a" and "\<bar>m - a\<bar> < p"
  shows "(m * x) mod p \<noteq> (a * x) mod p"
proof
  assume "(m * x) mod p = (a * x) mod p"
  then have "p dvd (m * x - a * x)" by (simp add: mod_eq_dvd_iff)
  then have "p dvd (m - a) * x" by (simp add: algebra_simps)
  then have "p dvd (m - a) \<or> p dvd x" using prime_dvd_mult [OF assms(1)] by blast
  moreover have "\<not> p dvd (m - a)" using assms(4,5) by (intro not_dvd_small) simp_all
  moreover have "\<not> p dvd x" using assms(2,3) by (intro not_dvd_small) simp_all
  ultimately show False by simp
qed

lemma scaled_nonzero:
  assumes "is_prime p" and "0 < x" and "x < p" and "a \<noteq> 0" and "\<bar>a\<bar> < p"
  shows "0 < (a * x) mod p \<and> (a * x) mod p < p"
proof -
  have p: "0 < p" using assms(1) by (simp add: is_prime_def)
  have "\<not> p dvd a * x"
    using prime_dvd_mult [OF assms(1), of a x] not_dvd_small [of a p] not_dvd_small [of x p] assms
    by auto
  then have "(a * x) mod p \<noteq> 0" by (simp add: dvd_eq_mod_eq_0)
  moreover have "0 \<le> (a * x) mod p" "(a * x) mod p < p" using p by simp_all
  ultimately show ?thesis by simp
qed

section \<open>The loop of scalar multiplication acts on coefficients\<close>

lemma point_double_coords:
  assumes "1 < prime ec" and "0 \<le> coef_a ec" and "coef_a ec < prime ec"
    and "0 \<le> X" and "X < prime ec" and "0 \<le> Y" and "Y < prime ec"
  shows "point_double \<lparr>px = X, py = Y\<rparr> ec =
     Inr \<lparr>px = (- 2 * X) mod prime ec, py = (- Y) mod prime ec\<rparr>"
  using assms by (subst point_double_in_field) simp_all

lemma point_add_coords:
  assumes "1 < prime ec"
    and "0 \<le> X1" and "X1 < prime ec" and "0 < Y1" and "Y1 < prime ec"
    and "0 \<le> X2" and "X2 < prime ec" and "0 < Y2" and "Y2 < prime ec"
    and "X1 \<noteq> X2"
  shows "point_add \<lparr>px = X1, py = Y1\<rparr> \<lparr>px = X2, py = Y2\<rparr> ec =
     Inr \<lparr>px = (- (X1 + X2)) mod prime ec, py = (- Y1) mod prime ec\<rparr>"
  using assms by (subst point_add_in_field) simp_all

lemma signed_nonzero:
  fixes p y t :: int
  assumes "0 < p" and "0 < y" and "y < p" and "\<bar>t\<bar> = 1"
  shows "0 < (t * y) mod p \<and> (t * y) mod p < p"
proof -
  have "t = 1 \<or> t = - 1" using assms(4) by auto
  then show ?thesis
  proof
    assume "t = 1"
    then show ?thesis using assms by simp
  next
    assume t: "t = - 1"
    have "(- y) mod p = (p - y) mod p" by (simp add: mod_diff_right_eq [symmetric] mod_minus_eq)
    also have "\<dots> = p - y" using assms by (intro mod_pos_pos_trivial) simp_all
    finally show ?thesis using assms t by simp
  qed
qed

lemma loop_linear:
  assumes pr: "is_prime (prime ec)" and ca: "0 \<le> coef_a ec" "coef_a ec < prime ec"
    and x: "0 < x" "x < prime ec" and y: "0 < y" "y < prime ec"
  shows "\<bar>t\<bar> = 1 \<Longrightarrow> m \<noteq> 0 \<Longrightarrow> \<bar>m\<bar> * 2 ^ length cs \<le> prime ec \<Longrightarrow>
    (a = 0 \<and> s = 0) \<or> (a \<noteq> 0 \<and> \<bar>a\<bar> < \<bar>m\<bar> \<and> \<bar>s\<bar> = 1) \<Longrightarrow>
    scalar_mult_loop ec cs
      (\<lparr>px = (a * x) mod prime ec, py = (s * y) mod prime ec\<rparr>,
       \<lparr>px = (m * x) mod prime ec, py = (t * y) mod prime ec\<rparr>)
    = Inr \<lparr>px = (fst (coef_loop cs ((a, s), (m, t))) * x) mod prime ec,
           py = (snd (coef_loop cs ((a, s), (m, t))) * y) mod prime ec\<rparr>"
proof (induction cs arbitrary: a s m t)
  case Nil
  then show ?case by simp
next
  case (Cons c cs)
  let ?p = "prime ec"
  let ?R = "\<lparr>px = (m * x) mod ?p, py = (t * y) mod ?p\<rparr>"
  let ?A = "\<lparr>px = (a * x) mod ?p, py = (s * y) mod ?p\<rparr>"
  have p1: "1 < ?p" using pr by (simp add: is_prime_def)
  have ty: "0 < (t * y) mod ?p" "(t * y) mod ?p < ?p"
    using signed_nonzero [of ?p y t] p1 y Cons.prems(1) by simp_all
  have mx: "0 \<le> (m * x) mod ?p" "(m * x) mod ?p < ?p" using p1 by simp_all
  have e1: "(- 2 * ((m * x) mod ?p)) mod ?p = (- 2 * m * x) mod ?p"
    by (simp only: mult.assoc mod_mult_right_eq)
  have e2: "(- ((t * y) mod ?p)) mod ?p = (- t * y) mod ?p"
    by (simp add: mod_simps)
  have dbl: "point_double ?R ec = Inr \<lparr>px = (- 2 * m * x) mod ?p, py = (- t * y) mod ?p\<rparr>"
    using point_double_coords [OF p1 ca mx less_imp_le [OF ty(1)] ty(2)] unfolding e1 e2 .
  have m2: "\<bar>- 2 * m\<bar> * 2 ^ length cs \<le> ?p"
    using Cons.prems(3) by (simp add: abs_mult)
  have m_small: "2 * \<bar>m\<bar> \<le> ?p"
  proof -
    have "(1::int) \<le> 2 ^ length cs" by simp
    then have "2 * \<bar>m\<bar> * 1 \<le> 2 * \<bar>m\<bar> * 2 ^ length cs"
      by (intro mult_left_mono) simp_all
    then show ?thesis using Cons.prems(3) by simp
  qed
  show ?case
  proof (cases "c = CHR ''1''")
    case False
    have "\<bar>- t\<bar> = 1" "- 2 * m \<noteq> 0" using Cons.prems by simp_all
    moreover have "(a = 0 \<and> s = 0) \<or> (a \<noteq> 0 \<and> \<bar>a\<bar> < \<bar>- 2 * m\<bar> \<and> \<bar>s\<bar> = 1)"
      using Cons.prems(4) by auto
    ultimately have "scalar_mult_loop ec cs
        (?A, \<lparr>px = (- 2 * m * x) mod ?p, py = (- t * y) mod ?p\<rparr>)
      = Inr \<lparr>px = (fst (coef_loop cs ((a, s), (- 2 * m, - t))) * x) mod ?p,
             py = (snd (coef_loop cs ((a, s), (- 2 * m, - t))) * y) mod ?p\<rparr>"
      using m2 by (intro Cons.IH)
    then show ?thesis using False dbl by simp
  next
    case True
    show ?thesis
    proof (cases "a = 0 \<and> s = 0")
      case zero: True
      have add: "point_add ?R ?A ec = Inr ?R"
        using zero ty by (simp add: point_add_def copy_point_def create_point_def)
      have "\<bar>- t\<bar> = 1" "- 2 * m \<noteq> 0" using Cons.prems by simp_all
      moreover have "(m = 0 \<and> t = 0) \<or> (m \<noteq> 0 \<and> \<bar>m\<bar> < \<bar>- 2 * m\<bar> \<and> \<bar>t\<bar> = 1)"
        using Cons.prems by auto
      ultimately have "scalar_mult_loop ec cs
          (?R, \<lparr>px = (- 2 * m * x) mod ?p, py = (- t * y) mod ?p\<rparr>)
        = Inr \<lparr>px = (fst (coef_loop cs ((m, t), (- 2 * m, - t))) * x) mod ?p,
               py = (snd (coef_loop cs ((m, t), (- 2 * m, - t))) * y) mod ?p\<rparr>"
        using m2 by (intro Cons.IH)
      then show ?thesis using True zero dbl add by simp
    next
      case nz: False
      then have as: "a \<noteq> 0" "\<bar>a\<bar> < \<bar>m\<bar>" "\<bar>s\<bar> = 1"
        using Cons.prems(4) by auto
      have sy: "0 < (s * y) mod ?p" "(s * y) mod ?p < ?p"
        using signed_nonzero [of ?p y s] p1 y as(3) by simp_all
      have ax: "0 \<le> (a * x) mod ?p" "(a * x) mod ?p < ?p" using p1 by simp_all
      have "m \<noteq> a" "\<bar>m - a\<bar> < ?p" using as m_small by auto
      then have ne: "(m * x) mod ?p \<noteq> (a * x) mod ?p"
        using pr x by (intro no_collision)
      have "(- ((m * x) mod ?p + (a * x) mod ?p)) mod ?p
          = (- (((m * x) mod ?p + (a * x) mod ?p) mod ?p)) mod ?p"
        by (simp only: mod_minus_eq)
      also have "\<dots> = (- ((m * x + a * x) mod ?p)) mod ?p"
        by (simp only: mod_add_eq)
      also have "\<dots> = (- (m * x + a * x)) mod ?p"
        by (simp only: mod_minus_eq)
      also have "- (m * x + a * x) = - (m + a) * x"
        by (simp add: algebra_simps)
      finally have e3: "(- ((m * x) mod ?p + (a * x) mod ?p)) mod ?p = (- (m + a) * x) mod ?p" .
      have add: "point_add ?R ?A ec
          = Inr \<lparr>px = (- (m + a) * x) mod ?p, py = (- t * y) mod ?p\<rparr>"
        using point_add_coords [OF p1 mx ty ax sy ne] unfolding e2 e3 .
      have "\<bar>- t\<bar> = 1" "- 2 * m \<noteq> 0" using Cons.prems by simp_all
      moreover have "(- (m + a) = 0 \<and> - t = 0) \<or>
          (- (m + a) \<noteq> 0 \<and> \<bar>- (m + a)\<bar> < \<bar>- 2 * m\<bar> \<and> \<bar>- t\<bar> = 1)"
        using as Cons.prems(1) by auto
      ultimately have "scalar_mult_loop ec cs
          (\<lparr>px = (- (m + a) * x) mod ?p, py = (- t * y) mod ?p\<rparr>,
           \<lparr>px = (- 2 * m * x) mod ?p, py = (- t * y) mod ?p\<rparr>)
        = Inr \<lparr>px = (fst (coef_loop cs ((- (m + a), - t), (- 2 * m, - t))) * x) mod ?p,
               py = (snd (coef_loop cs ((- (m + a), - t), (- 2 * m, - t))) * y) mod ?p\<rparr>"
        using m2 by (intro Cons.IH)
      then show ?thesis using True as(1) dbl add by simp
    qed
  qed
qed

lemma coef_loop_bounds:
  "\<bar>t\<bar> = 1 \<Longrightarrow> m \<noteq> 0 \<Longrightarrow>
   (a = 0 \<and> s = 0) \<or> (a \<noteq> 0 \<and> \<bar>a\<bar> < \<bar>m\<bar> \<and> \<bar>s\<bar> = 1) \<Longrightarrow>
   a \<noteq> 0 \<or> CHR ''1'' \<in> set cs \<Longrightarrow>
     fst (coef_loop cs ((a, s), (m, t))) \<noteq> 0 \<and>
     \<bar>fst (coef_loop cs ((a, s), (m, t)))\<bar> < \<bar>m\<bar> * 2 ^ length cs \<and>
     \<bar>snd (coef_loop cs ((a, s), (m, t)))\<bar> = 1"
proof (induction cs arbitrary: a s m t)
  case Nil
  then show ?case by auto
next
  case (Cons c cs)
  have t': "\<bar>- t\<bar> = 1" and m': "- 2 * m \<noteq> 0" using Cons.prems by simp_all
  have scale: "\<bar>- 2 * m\<bar> * 2 ^ length cs = \<bar>m\<bar> * 2 ^ length (c # cs)"
    by (simp add: abs_mult)
  show ?case
  proof (cases "c = CHR ''1''")
    case False
    then have a: "a \<noteq> 0 \<or> CHR ''1'' \<in> set cs" using Cons.prems(4) by auto
    have "(a = 0 \<and> s = 0) \<or> (a \<noteq> 0 \<and> \<bar>a\<bar> < \<bar>- 2 * m\<bar> \<and> \<bar>s\<bar> = 1)"
      using Cons.prems(3) by auto
    from Cons.IH [OF t' m' this a] show ?thesis
      unfolding scale using False by simp
  next
    case True
    show ?thesis
    proof (cases "a = 0 \<and> s = 0")
      case zero: True
      have "(m = 0 \<and> t = 0) \<or> (m \<noteq> 0 \<and> \<bar>m\<bar> < \<bar>- 2 * m\<bar> \<and> \<bar>t\<bar> = 1)"
        using Cons.prems by auto
      moreover have "m \<noteq> 0 \<or> CHR ''1'' \<in> set cs" using Cons.prems by simp
      ultimately show ?thesis
        using Cons.IH [OF t' m', of m t] True zero unfolding scale by simp
    next
      case nz: False
      then have as: "a \<noteq> 0" "\<bar>a\<bar> < \<bar>m\<bar>" "\<bar>s\<bar> = 1"
        using Cons.prems(3) by auto
      have "(- (m + a) = 0 \<and> - t = 0) \<or>
          (- (m + a) \<noteq> 0 \<and> \<bar>- (m + a)\<bar> < \<bar>- 2 * m\<bar> \<and> \<bar>- t\<bar> = 1)"
        using as Cons.prems(1) by auto
      moreover have "- (m + a) \<noteq> 0 \<or> CHR ''1'' \<in> set cs" using as by auto
      ultimately show ?thesis
        using Cons.IH [OF t' m', of "- (m + a)" "- t"] True as(1) unfolding scale by simp
    qed
  qed
qed

lemma bits_length:
  "0 < K \<Longrightarrow> n < 2 ^ K \<Longrightarrow> length (mpz_get_str_abs 2 n) \<le> K"
proof (induction "2::nat" n arbitrary: K rule: mpz_get_str_abs.induct)
  case (1 n)
  show ?case
  proof (cases "n < 2")
    case True
    then show ?thesis using 1(2) by (simp add: mpz_get_str_abs.simps)
  next
    case False
    then have str: "mpz_get_str_abs 2 n
        = mpz_get_str_abs 2 (n div 2) @ [digit_char (nat (n mod 2))]"
      by (subst mpz_get_str_abs.simps) simp
    obtain K' where K: "K = Suc K'" using 1(2) by (cases K) auto
    have "K' \<noteq> 0" using False 1(3) K by (cases K') auto
    moreover have "n div 2 < 2 ^ K'" using 1(3) K by simp
    ultimately have "length (mpz_get_str_abs 2 (n div 2)) \<le> K'"
      using 1(1) [of K'] False by simp
    then show ?thesis using K by (simp add: str)
  qed
qed

lemma bits_has_one: "0 < n \<Longrightarrow> CHR ''1'' \<in> set (mpz_get_str_abs 2 n)"
proof (induction "2::nat" n rule: mpz_get_str_abs.induct)
  case (1 n)
  show ?case
  proof (cases "n < 2")
    case True
    with 1(2) have "n = 1" by simp
    then show ?thesis by simp
  next
    case False
    then have str: "mpz_get_str_abs 2 n
        = mpz_get_str_abs 2 (n div 2) @ [digit_char (nat (n mod 2))]"
      by (subst mpz_get_str_abs.simps) simp
    have "0 < n div 2" using False by simp
    then show ?thesis using 1(1) False by (simp add: str)
  qed
qed

lemma scalar_mult_linear:
  assumes pr: "is_prime (prime ec)" and ca: "0 \<le> coef_a ec" "coef_a ec < prime ec"
    and d: "0 < d" "d < 2 ^ K" and K: "2 ^ K \<le> prime ec"
  shows "\<exists>a s. a \<noteq> 0 \<and> \<bar>a\<bar> < prime ec \<and> \<bar>s\<bar> = 1 \<and>
    (\<forall>x y. 0 < x \<and> x < prime ec \<and> 0 < y \<and> y < prime ec \<longrightarrow>
       scalar_mult \<lparr>px = x, py = y\<rparr> d ec
         = Inr \<lparr>px = (a * x) mod prime ec, py = (s * y) mod prime ec\<rparr>)"
proof -
  let ?p = "prime ec"
  let ?cs = "rev (mpz_get_str_abs 2 d)"
  let ?r = "coef_loop ?cs ((0, 0), (1, 1))"
  have K0: "0 < K" using d by (cases K) auto
  have len: "length ?cs \<le> K" using bits_length [OF K0 d(2)] by simp
  have pow: "(2::int) ^ length ?cs \<le> ?p"
  proof -
    have "(2::int) ^ length ?cs \<le> 2 ^ K" using len by (intro power_increasing) simp_all
    from this K show ?thesis by (rule order_trans)
  qed
  have one: "CHR ''1'' \<in> set ?cs" using bits_has_one [OF d(1)] by simp
  have b: "fst ?r \<noteq> 0 \<and> \<bar>fst ?r\<bar> < \<bar>1\<bar> * 2 ^ length ?cs \<and> \<bar>snd ?r\<bar> = 1"
    using one by (intro coef_loop_bounds) simp_all
  have lin: "scalar_mult \<lparr>px = x, py = y\<rparr> d ec
      = Inr \<lparr>px = (fst ?r * x) mod ?p, py = (snd ?r * y) mod ?p\<rparr>"
    if xy: "0 < x" "x < ?p" "0 < y" "y < ?p" for x y
  proof -
    have "scalar_mult_loop ec ?cs
        (\<lparr>px = (0 * x) mod ?p, py = (0 * y) mod ?p\<rparr>,
         \<lparr>px = (1 * x) mod ?p, py = (1 * y) mod ?p\<rparr>)
      = Inr \<lparr>px = (fst ?r * x) mod ?p, py = (snd ?r * y) mod ?p\<rparr>"
      using pow by (intro loop_linear [OF pr ca xy]) simp_all
    then show ?thesis
      using xy d(1) by (simp add: scalar_mult_def mpz_get_str_def create_point_def)
  qed
  show ?thesis
    using b pow lin by (intro exI [of _ "fst ?r"] exI [of _ "snd ?r"]) auto
qed

lemma scalar_mult_loop_identity:
  assumes "1 < prime ec" and "0 \<le> coef_a ec" and "coef_a ec < prime ec"
  shows "scalar_mult_loop ec cs (create_point, create_point) = Inr create_point"
proof (induction cs)
  case Nil
  show ?case by simp
next
  case (Cons c cs)
  have "point_double \<lparr>px = 0, py = 0\<rparr> ec = Inr \<lparr>px = 0, py = 0\<rparr>"
    using assms by (subst point_double_coords) simp_all
  moreover have "point_add create_point create_point ec = Inr create_point"
    by (simp add: point_add_def create_point_def)
  ultimately show ?case using Cons.IH by (simp add: create_point_def)
qed

lemma scalar_mult_identity:
  assumes "1 < prime ec" and "0 \<le> coef_a ec" and "coef_a ec < prime ec"
  shows "scalar_mult create_point k ec = Inr create_point"
  using scalar_mult_loop_identity [OF assms] by (simp add: scalar_mult_def)

lemma mod_mult_swap:
  fixes a b x p :: int
  shows "(a * ((b * x) mod p)) mod p = (b * ((a * x) mod p)) mod p"
proof -
  have "(a * ((b * x) mod p)) mod p = (a * (b * x)) mod p" by (rule mod_mult_right_eq)
  also have "a * (b * x) = b * (a * x)" by (simp add: mult.left_commute)
  also have "(b * (a * x)) mod p = (b * ((a * x) mod p)) mod p"
    by (rule mod_mult_right_eq [symmetric])
  finally show ?thesis .
qed

lemma shared_point:
  assumes pr: "is_prime (prime ec)" and ca: "0 \<le> coef_a ec" "coef_a ec < prime ec"
    and gx: "0 < px (G ec)" "px (G ec) < prime ec"
    and gy: "0 < py (G ec)" "py (G ec) < prime ec"
    and K: "2 ^ K \<le> prime ec"
    and da: "0 \<le> da" "da < 2 ^ K" and db: "0 \<le> db" "db < 2 ^ K"
  shows "\<exists>qa qb r. scalar_mult (G ec) da ec = Inr qa \<and> scalar_mult (G ec) db ec = Inr qb \<and>
      0 \<le> px qa \<and> 0 \<le> py qa \<and> 0 \<le> px qb \<and> 0 \<le> py qb \<and>
      scalar_mult qb da ec = Inr r \<and> scalar_mult qa db ec = Inr r"
proof -
  let ?p = "prime ec"
  have p1: "1 < ?p" using pr by (simp add: is_prime_def)
  have G: "\<lparr>px = px (G ec), py = py (G ec)\<rparr> = G ec" by simp
  have id: "\<And>k. scalar_mult create_point k ec = Inr create_point"
    using p1 ca by (rule scalar_mult_identity)
  have pub: "\<exists>q. scalar_mult (G ec) d ec = Inr q \<and> 0 \<le> px q \<and> 0 \<le> py q"
    if "0 \<le> d" "d < 2 ^ K" for d
  proof (cases "d = 0")
    case True
    then show ?thesis by (simp add: scalar_mult_zero create_point_def)
  next
    case False
    then have "0 < d" using that by simp
    from scalar_mult_linear [OF pr ca this that(2) K]
    obtain a s where "scalar_mult \<lparr>px = px (G ec), py = py (G ec)\<rparr> d ec
        = Inr \<lparr>px = (a * px (G ec)) mod ?p, py = (s * py (G ec)) mod ?p\<rparr>"
      using gx gy by blast
    then have "scalar_mult (G ec) d ec
        = Inr \<lparr>px = (a * px (G ec)) mod ?p, py = (s * py (G ec)) mod ?p\<rparr>"
      unfolding G .
    then show ?thesis using p1 by simp
  qed
  consider (za) "da = 0" | (zb) "db = 0" | (pos) "0 < da" "0 < db"
    using da db by linarith
  then show ?thesis
  proof cases
    case za
    obtain qb where "scalar_mult (G ec) db ec = Inr qb" "0 \<le> px qb" "0 \<le> py qb"
      using pub [OF db] by blast
    then show ?thesis
      using za id [of db] by (simp add: scalar_mult_zero create_point_def)
  next
    case zb
    obtain qa where "scalar_mult (G ec) da ec = Inr qa" "0 \<le> px qa" "0 \<le> py qa"
      using pub [OF da] by blast
    then show ?thesis
      using zb id [of da] by (simp add: scalar_mult_zero create_point_def)
  next
    case pos
    from scalar_mult_linear [OF pr ca pos(1) da(2) K]
    obtain a s where a: "a \<noteq> 0" "\<bar>a\<bar> < ?p" "\<bar>s\<bar> = 1"
      and la: "\<And>x y. 0 < x \<Longrightarrow> x < ?p \<Longrightarrow> 0 < y \<Longrightarrow> y < ?p \<Longrightarrow>
          scalar_mult \<lparr>px = x, py = y\<rparr> da ec
            = Inr \<lparr>px = (a * x) mod ?p, py = (s * y) mod ?p\<rparr>"
      by blast
    from scalar_mult_linear [OF pr ca pos(2) db(2) K]
    obtain b u where b: "b \<noteq> 0" "\<bar>b\<bar> < ?p" "\<bar>u\<bar> = 1"
      and lb: "\<And>x y. 0 < x \<Longrightarrow> x < ?p \<Longrightarrow> 0 < y \<Longrightarrow> y < ?p \<Longrightarrow>
          scalar_mult \<lparr>px = x, py = y\<rparr> db ec
            = Inr \<lparr>px = (b * x) mod ?p, py = (u * y) mod ?p\<rparr>"
      by blast
    let ?qa = "\<lparr>px = (a * px (G ec)) mod ?p, py = (s * py (G ec)) mod ?p\<rparr>"
    let ?qb = "\<lparr>px = (b * px (G ec)) mod ?p, py = (u * py (G ec)) mod ?p\<rparr>"
    have qa: "scalar_mult (G ec) da ec = Inr ?qa"
      using la [OF gx gy] unfolding G .
    have qb: "scalar_mult (G ec) db ec = Inr ?qb"
      using lb [OF gx gy] unfolding G .
    have ax: "0 < (a * px (G ec)) mod ?p \<and> (a * px (G ec)) mod ?p < ?p"
      using pr gx a by (intro scaled_nonzero)
    have bx: "0 < (b * px (G ec)) mod ?p \<and> (b * px (G ec)) mod ?p < ?p"
      using pr gx b by (intro scaled_nonzero)
    have sy: "0 < (s * py (G ec)) mod ?p \<and> (s * py (G ec)) mod ?p < ?p"
      using p1 gy a(3) by (intro signed_nonzero) simp_all
    have uy: "0 < (u * py (G ec)) mod ?p \<and> (u * py (G ec)) mod ?p < ?p"
      using p1 gy b(3) by (intro signed_nonzero) simp_all
    have ra: "scalar_mult ?qb da ec
        = Inr \<lparr>px = (a * ((b * px (G ec)) mod ?p)) mod ?p,
               py = (s * ((u * py (G ec)) mod ?p)) mod ?p\<rparr>"
      using bx uy by (intro la) simp_all
    have rb: "scalar_mult ?qa db ec
        = Inr \<lparr>px = (b * ((a * px (G ec)) mod ?p)) mod ?p,
               py = (u * ((s * py (G ec)) mod ?p)) mod ?p\<rparr>"
      using ax sy by (intro lb) simp_all
    let ?r = "\<lparr>px = (a * ((b * px (G ec)) mod ?p)) mod ?p,
              py = (s * ((u * py (G ec)) mod ?p)) mod ?p\<rparr>"
    have "scalar_mult ?qa db ec = Inr ?r"
      unfolding rb
      by (simp only: mod_mult_swap [of b a] mod_mult_swap [of u s])
    then have "scalar_mult (G ec) da ec = Inr ?qa \<and> scalar_mult (G ec) db ec = Inr ?qb \<and>
      0 \<le> px ?qa \<and> 0 \<le> py ?qa \<and> 0 \<le> px ?qb \<and> 0 \<le> py ?qb \<and>
      scalar_mult ?qb da ec = Inr ?r \<and> scalar_mult ?qa db ec = Inr ?r"
      using qa qb ra ax bx sy uy by simp
    then show ?thesis by blast
  qed
qed

lemma key_pairs_agree:
  assumes pr: "is_prime (prime ec)" and ca: "0 \<le> coef_a ec" "coef_a ec < prime ec"
    and gx: "0 < px (G ec)" "px (G ec) < prime ec"
    and gy: "0 < py (G ec)" "py (G ec) < prime ec"
    and bits: "2 ^ key_size_bits ec \<le> prime ec"
  shows "\<exists>alice bob secret.
      gen_key_pair_on ec urandom_a = Inr alice \<and> gen_key_pair_on ec urandom_b = Inr bob \<and>
      get_secret alice (kp_public bob) = Inr secret \<and>
      get_secret bob (kp_public alice) = Inr secret"
proof -
  define bytes where "bytes = key_size_bits ec div 8"
  define buf where "buf = (\<lambda>urandom :: 8 word list.
      take bytes urandom @ drop (min bytes (length urandom)) (replicate (1 + bytes) 0))"
  define da where "da = mpz_import bytes (buf urandom_a)"
  define db where "db = mpz_import bytes (buf urandom_b)"
  have le: "(256::int) ^ bytes = 2 ^ (8 * bytes)"
    by (simp add: power_mult)
  have "(2::int) ^ (8 * bytes) \<le> 2 ^ key_size_bits ec"
    by (intro power_increasing) (simp_all add: bytes_def)
  from this bits have K: "(2::int) ^ (8 * bytes) \<le> prime ec"
    by (rule order_trans)
  have da: "0 \<le> da" "da < 2 ^ (8 * bytes)" and db: "0 \<le> db" "db < 2 ^ (8 * bytes)"
    using mpz_import_bounds [of bytes "buf urandom_a"] mpz_import_bounds [of bytes "buf urandom_b"]
    unfolding le da_def db_def by simp_all
  from shared_point [OF pr ca gx gy K da db]
  obtain qa qb r where qa: "scalar_mult (G ec) da ec = Inr qa"
    and qb: "scalar_mult (G ec) db ec = Inr qb"
    and pos: "0 \<le> px qa" "0 \<le> py qa" "0 \<le> px qb" "0 \<le> py qb"
    and ra: "scalar_mult qb da ec = Inr r" and rb: "scalar_mult qa db ec = Inr r"
    by blast
  let ?alice = "\<lparr>kp_private = da, kp_public = fst (point_to_str qa), kp_ec = ec\<rparr>"
  let ?bob = "\<lparr>kp_private = db, kp_public = fst (point_to_str qb), kp_ec = ec\<rparr>"
  have a: "gen_key_pair_on ec urandom_a = Inr ?alice"
    using qa by (simp add: gen_key_pair_on_def Let_def da_def buf_def bytes_def)
  have b: "gen_key_pair_on ec urandom_b = Inr ?bob"
    using qb by (simp add: gen_key_pair_on_def Let_def db_def buf_def bytes_def)
  have sa: "get_secret ?alice (kp_public ?bob) = Inr (point_to_str r)"
    using ra by (simp add: get_secret_def decode_encode [OF pos(3,4)])
  have sb: "get_secret ?bob (kp_public ?alice) = Inr (point_to_str r)"
    using rb by (simp add: get_secret_def decode_encode [OF pos(1,2)])
  from a b sa sb show ?thesis by blast
qed

text \<open>
  For the two curves of the program every condition but the primality of the modulus is
  checked by computation, so that on \<open>secp192k1\<close> and \<open>secp192r1\<close> the two secrets
  agree as soon as the modulus of the curve is prime.
\<close>

lemma registry_curves_agree:
  assumes "(case curve of SECP_192_R1 \<Rightarrow> get_secp192r1_curve | _ \<Rightarrow> get_secp192k1_curve) = Inr ec"
    and "is_prime (prime ec)"
  shows "\<exists>alice bob secret.
      gen_key_pair curve urandom_a = Inr alice \<and> gen_key_pair curve urandom_b = Inr bob \<and>
      get_secret alice (kp_public bob) = Inr secret \<and>
      get_secret bob (kp_public alice) = Inr secret"
proof -
  have "0 \<le> coef_a ec \<and> coef_a ec < prime ec \<and>
      0 < px (G ec) \<and> px (G ec) < prime ec \<and> 0 < py (G ec) \<and> py (G ec) < prime ec \<and>
      2 ^ key_size_bits ec \<le> prime ec"
    using assms(1) by (cases curve) (auto simp: secp192k1_curve secp192r1_curve)
  then have "\<exists>alice bob secret.
      gen_key_pair_on ec urandom_a = Inr alice \<and> gen_key_pair_on ec urandom_b = Inr bob \<and>
      get_secret alice (kp_public bob) = Inr secret \<and>
      get_secret bob (kp_public alice) = Inr secret"
    using assms(2) by (intro key_pairs_agree) simp_all
  then show ?thesis using assms(1) by (simp add: gen_key_pair_def)
qed

section \<open>C1: both sides derive the same secret\<close>

text \<open>
  C1: two key pairs generated on the same curve derive the same secret from each
  other's public key, whatever bytes the random source delivered for their private
  scalars: both key pairs are generated, and \<open>get_secret\<close> returns the same string and
  length to both sides. The curve is any curve of the data model: the modulus \<open>p\<close> is
  prime, the coefficient \<open>a\<close> and the coordinates of the generator are reduced modulo
  \<open>p\<close>, the coordinates of the generator are not zero, and private keys are shorter
  than \<open>p\<close> (\<open>2 ^ key_size_bits \<le> p\<close>).
\<close>

theorem shared_secrets_agree:
  assumes "is_prime (prime ec)" and "0 \<le> coef_a ec" and "coef_a ec < prime ec"
    and "0 < px (G ec)" and "px (G ec) < prime ec"
    and "0 < py (G ec)" and "py (G ec) < prime ec"
    and "2 ^ key_size_bits ec \<le> prime ec"
  shows "\<exists>alice bob secret.
      gen_key_pair_on ec urandom_a = Inr alice \<and> gen_key_pair_on ec urandom_b = Inr bob \<and>
      get_secret alice (kp_public bob) = Inr secret \<and>
      get_secret bob (kp_public alice) = Inr secret"
  using assms by (rule key_pairs_agree)

theorem shared_secrets_agree_witness:
  "\<exists>alice bob secret.
      gen_key_pair_on curve263 [5] = Inr alice \<and> gen_key_pair_on curve263 [9] = Inr bob \<and>
      get_secret alice (kp_public bob) = Inr secret \<and>
      get_secret bob (kp_public alice) = Inr secret"
  using shared_secrets_agree [of curve263 "[5]" "[9]"] is_prime_263
  by (simp add: curve263_def)

section \<open>C2: division as multiplication by the inverse\<close>

text \<open>
  C2 says that \<open>prime_field_div\<close> returns \<open>a * b\<^sup>-\<^sup>1 mod p\<close>, so that the inverse it
  computes for \<open>a\<close>, multiplied with \<open>a\<close>, is \<open>1\<close>. In the field of 7 elements the inverse
  of 3 is 5, but \<open>prime_field_div 1 3 7\<close> is \<open>0\<close>, and its product with 3 is \<open>0\<close>.
\<close>

theorem prime_field_div_1_3_7:
  "prime_field_div 1 3 7 = Inr 0 \<and> prime_field_mul 0 3 7 = 0 \<and> (3 * 5) mod 7 = (1::int)"
  by (simp add: div_in_field prime_field_mul_def mpz_get_str_def prime_field_add_def)

section \<open>C3: scalar multiplication and repeated addition\<close>




section \<open>C4: adding two points with the same x-coordinate\<close>

text \<open>
  C4: for points \<open>p\<close> and \<open>q\<close> that are not the identity \<open>(0, 0)\<close> and have the same
  x-coordinate, \<open>point_add\<close> returns the identity point and does not reach the slope
  formula. This covers \<open>q = -p\<close>; the points need not even differ.
\<close>

theorem point_add_equal_x:
  assumes "px p \<noteq> 0 \<or> py p \<noteq> 0" and "px q \<noteq> 0 \<or> py q \<noteq> 0" and "px p = px q"
  shows "point_add p q ec = Inr create_point"
  using assms by (auto simp: point_add_def)

theorem point_add_equal_x_witness:
  "point_add \<lparr>px = 3, py = 6\<rparr> \<lparr>px = 3, py = 257\<rparr> curve263 = Inr \<lparr>px = 0, py = 0\<rparr>"
  using point_add_equal_x [of "\<lparr>px = 3, py = 6\<rparr>" "\<lparr>px = 3, py = 257\<rparr>" curve263]
  by (simp add: create_point_def)

section \<open>C5: doubling a point whose y-coordinate is zero\<close>

text \<open>
  C5 says that \<open>point_double\<close> returns the identity for a point with \<open>y = 0\<close>. The
  function has no such case: on \<open>curve263\<close> the point \<open>(8, 0)\<close> of order two is doubled
  to \<open>(247, 0)\<close>.
\<close>

theorem point_double_y_zero:
  "point_double \<lparr>px = 8, py = 0\<rparr> curve263 = Inr \<lparr>px = 247, py = 0\<rparr>"
  by (subst point_double_in_field) (simp_all add: curve263_def)

section \<open>C6: division by zero\<close>

text \<open>
  C6 says that \<open>prime_field_div\<close> fails with a division-by-zero error for a divisor
  \<open>b \<equiv> 0 (mod p)\<close>. It returns a value there.
\<close>

theorem prime_field_div_by_zero_returns: "prime_field_div 1 0 7 = Inr 0"
  by (simp add: div_in_field)

text \<open>
  C6, amended: \<open>prime_field_div\<close> returns a value for every dividend, divisor and
  modulus, also for a divisor \<open>b \<equiv> 0 (mod p)\<close>; it has no error result.
\<close>

theorem prime_field_div_always_returns: "\<exists>r. prime_field_div a b p = Inr r"
  by (rule prime_field_div_returns)

theorem prime_field_div_always_returns_witness: "\<exists>r. prime_field_div 5 0 7 = Inr r"
  using prime_field_div_always_returns [of 5 0 7] .

section \<open>C7: decoding a malformed string\<close>

text \<open>
  C7 says that \<open>str_to_point\<close> fails with an error for a string whose length is not
  \<open>2 + 2n\<close> or that has a character outside the hexadecimal alphabet. It returns a
  point for both: the last character of the five-character string is not read, and a
  field that does not parse is left at \<open>0\<close>.
\<close>

theorem str_to_point_odd_or_not_hex:
  "str_to_point ''04abc'' = Inr \<lparr>px = 10, py = 11\<rparr> \<and>
   str_to_point ''04zz'' = Inr \<lparr>px = 0, py = 0\<rparr>"
  by (simp add: str_to_point_fields Let_def scalar_defs)

text \<open>
  C7, amended: for every string of at least two characters \<open>str_to_point\<close> returns a
  point and no error. With \<open>n = len / 2 - 1\<close>, its \<open>x\<close> is the scalar that
  \<open>str_to_scalar\<close> leaves for the \<open>n\<close> characters after the two-character tag, and its
  \<open>y\<close> the one for the \<open>n\<close> characters from position \<open>1 + len / 2\<close> on; whenever
  \<open>str_to_scalar\<close> reports a status other than \<open>0\<close>, that scalar is \<open>0\<close>.
\<close>

theorem str_to_point_returns_point:
  assumes "2 \<le> length str"
  shows "str_to_point str =
     Inr \<lparr>px = snd (str_to_scalar (take (length str div 2 - 1) (drop 2 str))),
          py = snd (str_to_scalar (take (length str div 2 - 1) (drop (1 + length str div 2) str)))\<rparr>
     \<and> (fst (str_to_scalar s) = 0 \<or> snd (str_to_scalar s) = 0)"
  using assms by (simp add: str_to_point_fields str_to_scalar_status)

theorem str_to_point_returns_point_witness:
  "str_to_point ''04a1b2c'' = Inr \<lparr>px = 161, py = 178\<rparr>
   \<and> (fst (str_to_scalar ''0x'') = 0 \<or> snd (str_to_scalar ''0x'') = 0)"
  using str_to_point_returns_point [of "''04a1b2c''" "''0x''"]
  by (simp add: Let_def scalar_defs)

section \<open>C8: decoding an encoded point\<close>

text \<open>
  C8: for every point with coordinates \<open>x, y \<ge> 0\<close> (so for every valid point, the
  identity included), \<open>str_to_point\<close> applied to the string of \<open>point_to_str\<close> returns
  the point, and that string is \<open>"04"\<close> followed by the hexadecimal strings of \<open>x\<close> and
  of \<open>y\<close>, each padded with zeros on the left to the length of the longer one.
\<close>

theorem point_round_trip:
  assumes "0 \<le> px point" and "0 \<le> py point"
  shows "str_to_point (fst (point_to_str point)) = Inr point \<and>
    fst (point_to_str point) =
      ''04'' @ replicate (max (length (mpz_get_str 16 (px point)))
                             (length (mpz_get_str 16 (py point)))
                          - length (mpz_get_str 16 (px point))) (CHR ''0'')
             @ mpz_get_str 16 (px point)
             @ replicate (max (length (mpz_get_str 16 (px point)))
                             (length (mpz_get_str 16 (py point)))
                          - length (mpz_get_str 16 (py point))) (CHR ''0'')
             @ mpz_get_str 16 (py point)"
  using decode_encode [OF assms] point_to_str_padded [OF assms] by (simp add: max_def)

theorem point_round_trip_witness:
  "str_to_point (fst (point_to_str \<lparr>px = 5, py = 4096\<rparr>)) = Inr \<lparr>px = 5, py = 4096\<rparr> \<and>
   fst (point_to_str \<lparr>px = 5, py = 4096\<rparr>) = ''0400051000''"
proof -
  have x: "mpz_get_str 16 5 = ''5''" and y: "mpz_get_str 16 4096 = ''1000''"
    by (simp_all add: mpz_get_str_def mpz_get_str_abs.simps digit_char_def)
  have "(0::int) \<le> px \<lparr>px = 5, py = 4096\<rparr>" and "(0::int) \<le> py \<lparr>px = 5, py = 4096\<rparr>"
    by simp_all
  from point_round_trip [OF this] show ?thesis
    by (auto simp: x y)
qed

section \<open>C9: the range of the private scalar\<close>

text \<open>
  C9 says that the private scalar \<open>d\<close> of every generated key pair satisfies
  \<open>0 < d < n\<close>. When the twenty bytes read are all zero, \<open>d\<close> is \<open>0\<close> (and the public
  point is the identity).
\<close>

theorem gen_key_pair_zero_bytes:
  "gen_key_pair SECP_192_K1 (replicate 20 0) =
     Inr \<lparr>kp_private = 0, kp_public = ''0400'',
          kp_ec = \<lparr>prime = 6277101735386680763835789423207666416102355444459739541047,
                    coef_a = 0, coef_b = 3,
                    G = \<lparr>px = 5377521262291226325198505011805525673063229037935769709693,
                           py = 3805108391982600717572440947423858335415441070543209377693\<rparr>,
                    order = 6277101735386680763835789423061264271957123915200845512077,
                    cofactor = 1, key_size_bits = 160\<rparr>\<rparr>"
proof -
  have "mpz_import 20 (replicate 20 0 @ [0]) = 0"
    by (simp add: mpz_import_def import_zeros)
  then show ?thesis
    by (simp add: gen_key_pair_def secp192k1_curve gen_key_pair_on_def
        scalar_mult_zero point_to_str_identity)
qed

text \<open>
  C9, amended: for either curve and all bytes read, \<open>gen_key_pair\<close> returns a key pair
  whose private scalar \<open>d\<close> satisfies \<open>0 \<le> d < 2\<^sup>1\<^sup>6\<^sup>0\<close>, and so \<open>d < n\<close> for the order
  \<open>n\<close> of the selected curve.
\<close>

theorem private_scalar_range:
  "\<exists>kp. gen_key_pair curve urandom = Inr kp \<and>
      0 \<le> kp_private kp \<and> kp_private kp < 2 ^ 160 \<and> kp_private kp < order (kp_ec kp)"
proof -
  obtain ec where ec: "(case curve of SECP_192_R1 \<Rightarrow> get_secp192r1_curve | _ \<Rightarrow> get_secp192k1_curve) = Inr ec"
    and bits: "key_size_bits ec = 160" and ord: "2 ^ 160 < order ec"
    by (cases curve) (simp_all add: secp192k1_curve secp192r1_curve)
  obtain kp where kp: "gen_key_pair_on ec urandom = Inr kp" "kp_ec kp = ec"
    and "\<exists>data. kp_private kp = mpz_import 20 data"
    using gen_key_pair_on_private [of ec urandom] bits by auto
  then obtain data where d: "kp_private kp = mpz_import 20 data" by blast
  have "0 \<le> mpz_import 20 data \<and> mpz_import 20 data < 256 ^ 20"
    by (rule mpz_import_bounds)
  then have "0 \<le> kp_private kp \<and> kp_private kp < 2 ^ 160"
    using d by simp
  moreover have "gen_key_pair curve urandom = Inr kp"
    using ec kp by (simp add: gen_key_pair_def)
  ultimately show ?thesis using ord kp(2) by auto
qed

theorem private_scalar_range_witness:
  "\<exists>kp. gen_key_pair SECP_192_R1 (replicate 20 255) = Inr kp \<and>
      0 \<le> kp_private kp \<and> kp_private kp < 2 ^ 160 \<and> kp_private kp < order (kp_ec kp)"
  using private_scalar_range [of SECP_192_R1 "replicate 20 255"] .

section \<open>C10: adding a point to itself\<close>

text \<open>
  C10: for every point \<open>p\<close> other than the identity, \<open>point_add p p\<close> is the identity
  point \<open>(0, 0)\<close> and not the double of \<open>p\<close>: the test for equal x-coordinates does not
  look at the y-coordinates.
\<close>

theorem point_add_same_point:
  "px p \<noteq> 0 \<or> py p \<noteq> 0 \<Longrightarrow>
     point_add p p ec = Inr create_point \<and> create_point = \<lparr>px = 0, py = 0\<rparr>"
  by (auto simp: point_add_def create_point_def)

theorem point_add_same_point_witness:
  "point_add (G curve263) (G curve263) curve263 = Inr \<lparr>px = 0, py = 0\<rparr>"
  using point_add_same_point [of "G curve263" curve263]
  by (simp add: curve263_def)

end
